theory Spec2Isabelle
  imports
    Complex_Main
    "HOL-Library.Multiset"
    "HOL-Library.Char_ord"
    "HOL-Library.List_Lexorder"
    "HOL-Library.Sublist"
begin

section \<open>The HTTP server extension of the Skybrush server\<close>

text \<open>
  A shallow embedding of \<^verbatim>\<open>flockwave/server/ext/http_server/extension.py\<close>.
  The module keeps three globals: the list \<^verbatim>\<open>proposed_index_pages\<close> (a binary heap
  managed with \<^verbatim>\<open>heapq\<close>), the Quart application \<^verbatim>\<open>quart_app\<close> and the dictionary
  \<^verbatim>\<open>exports\<close>. Every function below takes the globals it reads and returns the ones it
  writes. Exceptions are values of the type \<open>exn\<close>.
\<close>

subsection \<open>Exceptions\<close>

datatype exn =
    ValueError
  | RuntimeError
  | AttributeError
  | UnicodeDecodeError
  | BuildError
  | DuplicateMountError
  | Exception string
  | BaseException string

text \<open>
  \<open>Exception s\<close> stands for any exception derived from Python's \<^verbatim>\<open>Exception\<close> that the
  model does not name, \<open>BaseException s\<close> for one that is not derived from it (a
  cancellation, a keyboard interrupt). The handler \<^verbatim>\<open>except Exception\<close> catches every
  value but the last.
\<close>

fun is_Exception :: "exn \<Rightarrow> bool" where
  "is_Exception (BaseException s) = False"
| "is_Exception e = True"

subsection \<open>Proposed index pages\<close>

text \<open>
  \<^verbatim>\<open>@dataclass(order=True) class ProposedIndexPage: priority: int = 0; route: str = "/"\<close>.
  The generated \<^verbatim>\<open>__eq__\<close> compares the tuples \<^verbatim>\<open>(priority, route)\<close>, which is the
  equality of the datatype; the generated \<^verbatim>\<open>__lt__\<close> and \<^verbatim>\<open>__le__\<close> compare the same
  tuples lexicographically. Strings are compared by code point, which is the byte order of
  their UTF-8 encoding.
\<close>

datatype ProposedIndexPage = ProposedIndexPage (priority: int) (route: string)

instantiation ProposedIndexPage :: linorder
begin

definition less_ProposedIndexPage :: "ProposedIndexPage \<Rightarrow> ProposedIndexPage \<Rightarrow> bool" where
  "less_ProposedIndexPage p q \<longleftrightarrow>
     priority p < priority q \<or> (priority p = priority q \<and> route p < route q)"

definition less_eq_ProposedIndexPage :: "ProposedIndexPage \<Rightarrow> ProposedIndexPage \<Rightarrow> bool" where
  "less_eq_ProposedIndexPage p q \<longleftrightarrow>
     priority p < priority q \<or> (priority p = priority q \<and> route p \<le> route q)"

instance
proof
  fix x y z :: ProposedIndexPage
  show "(x < y) = (x \<le> y \<and> \<not> y \<le> x)"
    unfolding less_ProposedIndexPage_def less_eq_ProposedIndexPage_def by auto
  show "x \<le> x"
    unfolding less_eq_ProposedIndexPage_def by simp
  show "x \<le> y \<Longrightarrow> y \<le> z \<Longrightarrow> x \<le> z"
    unfolding less_eq_ProposedIndexPage_def by auto
  show "x \<le> y \<Longrightarrow> y \<le> x \<Longrightarrow> x = y"
    unfolding less_eq_ProposedIndexPage_def by (cases x; cases y) auto
  show "x \<le> y \<or> y \<le> x"
    unfolding less_eq_ProposedIndexPage_def by auto
qed

end

subsection \<open>The heap queue of the standard library\<close>

text \<open>
  \<^verbatim>\<open>heapq\<close> keeps a list \<open>heap\<close> with \<open>heap[k] <= heap[2*k+1]\<close> and
  \<open>heap[k] <= heap[2*k+2]\<close>, and compares elements with \<open><\<close> only. The functions
  below follow CPython's \<^verbatim>\<open>Lib/heapq.py\<close> statement by statement.

  \<^verbatim>\<open>_siftdown(heap, startpos, pos)\<close>: \<open>newitem\<close> is \<open>heap[pos]\<close>; while \<open>pos > startpos\<close>
  and \<open>newitem < heap[(pos - 1) >> 1]\<close> the parent is moved down to \<open>pos\<close>; at the end
  \<open>newitem\<close> is stored at \<open>pos\<close>.
\<close>

function siftdown_loop :: "'a::linorder list \<Rightarrow> 'a \<Rightarrow> nat \<Rightarrow> nat \<Rightarrow> 'a list" where
  "siftdown_loop heap newitem startpos pos =
     (if pos > startpos then
        (let parentpos = (pos - 1) div 2;
             parent = heap ! parentpos
         in if newitem < parent
            then siftdown_loop (heap[pos := parent]) newitem startpos parentpos
            else heap[pos := newitem])
      else heap[pos := newitem])"
  by pat_completeness auto
termination
  by (relation "measure (\<lambda>(heap, newitem, startpos, pos). pos)") auto

definition siftdown :: "'a::linorder list \<Rightarrow> nat \<Rightarrow> nat \<Rightarrow> 'a list" where
  "siftdown heap startpos pos = siftdown_loop heap (heap ! pos) startpos pos"

text \<open>
  \<^verbatim>\<open>_siftup(heap, pos)\<close>: the smaller child is moved up until a leaf is reached (the
  right child is taken when it exists and the left one is not smaller than it); then
  \<open>newitem\<close> is stored at the leaf and sifted down towards \<open>startpos\<close>.
  \<open>siftup_loop\<close> is the \<^verbatim>\<open>while childpos < endpos\<close> loop and returns the list and the
  final \<open>pos\<close>.
\<close>

function siftup_loop :: "'a::linorder list \<Rightarrow> nat \<Rightarrow> 'a list \<times> nat" where
  "siftup_loop heap pos =
     (let endpos = length heap;
          childpos = 2 * pos + 1
      in if childpos < endpos then
           (let rightpos = childpos + 1;
                childpos' = (if rightpos < endpos \<and> \<not> heap ! childpos < heap ! rightpos
                             then rightpos else childpos)
            in siftup_loop (heap[pos := heap ! childpos']) childpos')
         else (heap, pos))"
  by pat_completeness auto
termination
  by (relation "measure (\<lambda>(heap, pos). length heap - pos)") auto

definition siftup :: "'a::linorder list \<Rightarrow> nat \<Rightarrow> 'a list" where
  "siftup heap pos =
     (let newitem = heap ! pos;
          (heap', pos') = siftup_loop heap pos
      in siftdown (heap'[pos' := newitem]) pos pos')"

text \<open>
  \<^verbatim>\<open>heapify(x)\<close>: \<open>for i in reversed(range(len(x) // 2)): _siftup(x, i)\<close>.
  \<open>heapify_loop x k\<close> runs the iterations \<open>i = k - 1, ..., 0\<close>.
\<close>

fun heapify_loop :: "'a::linorder list \<Rightarrow> nat \<Rightarrow> 'a list" where
  "heapify_loop x 0 = x"
| "heapify_loop x (Suc i) = heapify_loop (siftup x i) i"

definition heapify :: "'a::linorder list \<Rightarrow> 'a list" where
  "heapify x = heapify_loop x (length x div 2)"

text \<open>\<^verbatim>\<open>heappush(heap, item)\<close>: \<open>heap.append(item); _siftdown(heap, 0, len(heap) - 1)\<close>.\<close>

definition heappush :: "'a::linorder list \<Rightarrow> 'a \<Rightarrow> 'a list" where
  "heappush heap item = siftdown (heap @ [item]) 0 (length (heap @ [item]) - 1)"

text \<open>
  \<^verbatim>\<open>list.index(value)\<close>: the position of the first element equal to \<open>value\<close>;
  \<^verbatim>\<open>ValueError\<close> when there is none.
\<close>

fun list_index :: "'a list \<Rightarrow> 'a \<Rightarrow> exn + nat" where
  "list_index [] v = Inl ValueError"
| "list_index (y # ys) v =
     (if y = v then Inr 0
      else (case list_index ys v of Inl e \<Rightarrow> Inl e | Inr i \<Rightarrow> Inr (Suc i)))"

subsection \<open>Proposing and revoking index pages\<close>

text \<open>
  \<^verbatim>\<open>propose_index_page(route, priority)\<close> builds
  \<open>page = ProposedIndexPage(priority=-priority, route=route)\<close>, pushes it on the heap and
  returns the closure \<open>disposer\<close>, which refers to \<open>page\<close> and to the global list only.
  The closure is modelled by the function \<open>disposer page\<close> on the global list:

  \<^verbatim>\<open>index = proposed_index_pages.index(page)
  if index >= 0:
      proposed_index_pages[index] = proposed_index_pages[-1]
      proposed_index_pages.pop()
      heapify(proposed_index_pages)\<close>

  The list is called \<open>pages\<close> and the local \<open>index\<close> is called \<open>i\<close> below. When
  \<^verbatim>\<open>list.index\<close> raises, the list is left as it was. \<open>pages[-1]\<close> is the last
  element; the list is not empty where it is read, since \<open>page\<close> was found in it.
\<close>

definition disposer ::
    "ProposedIndexPage \<Rightarrow> ProposedIndexPage list \<Rightarrow> exn + ProposedIndexPage list" where
  "disposer page pages =
     (case list_index pages page of
        Inl e \<Rightarrow> Inl e
      | Inr i \<Rightarrow>
          if int i \<ge> 0
          then Inr (heapify (butlast (pages[i := last pages])))
          else Inr pages)"

definition new_page :: "string \<Rightarrow> int \<Rightarrow> ProposedIndexPage" where
  "new_page route' priority' = ProposedIndexPage (- priority') route'"

definition propose_index_page ::
    "string \<Rightarrow> int \<Rightarrow> ProposedIndexPage list
       \<Rightarrow> (ProposedIndexPage list \<Rightarrow> exn + ProposedIndexPage list) \<times> ProposedIndexPage list" where
  "propose_index_page route' priority' pages =
     (let page = new_page route' priority'
      in (disposer page, heappush pages page))"

text \<open>
  \<^verbatim>\<open>get_index_url()\<close>: \<open>url_for(proposed_index_pages[0].route)\<close> when the list is not
  empty, \<open>None\<close> otherwise. \<open>url_for\<close> belongs to Quart; it is a parameter here and may
  raise (\<^verbatim>\<open>BuildError\<close> for a route that no blueprint has registered).
\<close>

definition get_index_url ::
    "(string \<Rightarrow> exn + string) \<Rightarrow> ProposedIndexPage list \<Rightarrow> exn + string option" where
  "get_index_url url_for pages =
     (case pages of
        [] \<Rightarrow> Inr None
      | page # _ \<Rightarrow> (case url_for (route page) of Inl e \<Rightarrow> Inl e | Inr u \<Rightarrow> Inr (Some u)))"

subsection \<open>The default index route\<close>




subsection \<open>The scoped proposal\<close>


subsection \<open>The mount table\<close>

datatype web_app = Blueprint string | AsgiApp string

record MountEntry =
  entry_id :: nat
  application :: web_app
  pathPrefix :: string
  acceptedScopes :: "string list"
  entry_priority :: int

record MountTable =
  entries :: "MountEntry list"
  next_id :: nat

definition same_mount :: "string \<Rightarrow> string list \<Rightarrow> MountEntry \<Rightarrow> bool" where
  "same_mount path scopes e \<longleftrightarrow> pathPrefix e = path \<and> set (acceptedScopes e) = set scopes"

text \<open>
  Modelled from the spec: \<^verbatim>\<open>RoutingMiddleware.add\<close> of \<^verbatim>\<open>routing.py\<close>, which is not
  among the sources. The mount table holds the entries in the order of their registration.
  \<open>mount(application, path, scopes?, priority)\<close> registers an entry and fails with
  \<open>DuplicateMountError\<close> only if the exact (path, scopes) pair is already owned by a
  different live application; mounting the same application again at the same path is
  idempotent. It returns a capability that removes exactly this entry; the capability is
  the identifier of the entry, and \<open>revoke\<close> is its invocation (a second one is a no-op).
  Omitted scopes are the empty list, which accepts all kinds.
\<close>

definition table_add ::
    "web_app \<Rightarrow> string list option \<Rightarrow> string \<Rightarrow> int \<Rightarrow> MountTable \<Rightarrow> exn + nat \<times> MountTable" where
  "table_add app scopes path priority' t =
     (let sc = (case scopes of None \<Rightarrow> [] | Some s \<Rightarrow> s)
      in if \<exists>e \<in> set (entries t). same_mount path sc e \<and> application e \<noteq> app
         then Inl DuplicateMountError
         else (case find (same_mount path sc) (entries t) of
                 Some e \<Rightarrow> Inr (entry_id e, t)
               | None \<Rightarrow>
                   Inr (next_id t,
                        t\<lparr>entries := entries t @
                             [\<lparr>entry_id = next_id t, application = app, pathPrefix = path,
                               acceptedScopes = sc, entry_priority = priority'\<rparr>],
                          next_id := Suc (next_id t)\<rparr>)))"


text \<open>
  Modelled from the spec: the selection of \<^verbatim>\<open>RoutingMiddleware\<close> among its entries
  (\<open>route(scopeKind, path)\<close>), which is not among the sources. The entries whose accepted
  scopes contain the scope kind (or are unrestricted) and whose path prefix is a prefix of
  the path are the matches; among them the longest prefix wins, then the highest priority,
  then the earliest registration. \<open>pick\<close> scans the matches in the order of registration
  and replaces its candidate only by a strictly better entry.
\<close>

definition accepts :: "MountEntry \<Rightarrow> string \<Rightarrow> bool" where
  "accepts e scopeKind \<longleftrightarrow> acceptedScopes e = [] \<or> scopeKind \<in> set (acceptedScopes e)"

definition matches :: "string \<Rightarrow> string \<Rightarrow> MountEntry \<Rightarrow> bool" where
  "matches scopeKind path e \<longleftrightarrow> accepts e scopeKind \<and> prefix (pathPrefix e) path"

definition better :: "MountEntry \<Rightarrow> MountEntry \<Rightarrow> bool" where
  "better e c \<longleftrightarrow>
     length (pathPrefix c) < length (pathPrefix e)
     \<or> (length (pathPrefix c) = length (pathPrefix e) \<and> entry_priority c < entry_priority e)"

fun pick :: "MountEntry option \<Rightarrow> MountEntry list \<Rightarrow> MountEntry option" where
  "pick best [] = best"
| "pick None (e # es) = pick (Some e) es"
| "pick (Some c) (e # es) = pick (if better e c then Some e else Some c) es"

definition route_connection :: "MountTable \<Rightarrow> string \<Rightarrow> string \<Rightarrow> MountEntry option" where
  "route_connection t scopeKind path = pick None (filter (matches scopeKind path) (entries t))"

subsection \<open>The globals of the module, mounting\<close>

datatype cfg_value = Str string | Num int

record quart =
  blueprints :: "(string \<times> string) list"

record globals =
  proposed_index_pages :: "ProposedIndexPage list"
  quart_app :: "quart option"
  exports_address :: "(cfg_value \<times> cfg_value) option"
  exports_asgi_app :: "MountTable option"

text \<open>The module as imported: no proposal, no application, both exports \<open>None\<close>.\<close>

definition initial_globals :: globals where
  "initial_globals =
     \<lparr>proposed_index_pages = [], quart_app = None, exports_address = None,
      exports_asgi_app = None\<rparr>"




subsection \<open>Loading and unloading\<close>

text \<open>
  \<^verbatim>\<open>create_app()\<close> raises \<^verbatim>\<open>RuntimeError\<close> when the application exists; otherwise it
  creates the Quart application and a router. The Quart application is the default route
  of the router, whose table of mounts starts empty.
\<close>

definition create_app :: "globals \<Rightarrow> exn + MountTable \<times> globals" where
  "create_app g =
     (if quart_app g \<noteq> None then Inl RuntimeError
      else Inr (\<lparr>entries = [], next_id = 0\<rparr>, g\<lparr>quart_app := Some \<lparr>blueprints = []\<rparr>\<rparr>))"

text \<open>
  \<^verbatim>\<open>load(app, configuration)\<close>:
  \<open>address = (configuration.get("host", "localhost"),
  configuration.get("port", get_port_number_for_service("http")))\<close>, then
  \<open>exports.update(address=address, asgi_app=create_app())\<close>.
  The port of the service \<open>http\<close> is a parameter.
\<close>

definition load :: "int \<Rightarrow> (string \<rightharpoonup> cfg_value) \<Rightarrow> globals \<Rightarrow> exn + globals" where
  "load http_port configuration g =
     (let address =
            (case configuration ''host'' of None \<Rightarrow> Str ''localhost'' | Some v \<Rightarrow> v,
             case configuration ''port'' of None \<Rightarrow> Num http_port | Some v \<Rightarrow> v)
      in case create_app g of
           Inl e \<Rightarrow> Inl e
         | Inr (router, g1) \<Rightarrow>
             Inr (g1\<lparr>exports_address := Some address, exports_asgi_app := Some router\<rparr>))"

text \<open>The default of the key \<open>host\<close> in \<^verbatim>\<open>schema["properties"]\<close>.\<close>

definition schema_host_default :: string where
  "schema_host_default = ''127.0.0.1''"

definition unload :: "globals \<Rightarrow> globals" where
  "unload g = g\<lparr>quart_app := None, exports_address := None, exports_asgi_app := None\<rparr>"

subsection \<open>Running the server\<close>

text \<open>
  The effects of \<^verbatim>\<open>run\<close> are recorded as a list of events. \<open>Serve\<close> is a call of
  Hypercorn's \<^verbatim>\<open>serve\<close> with the application and the configuration; \<open>Sleep\<close> is
  \<^verbatim>\<open>trio.sleep\<close>.
\<close>

record hyper_config =
  bind :: "(cfg_value \<times> cfg_value) list"
  certfile :: "cfg_value option"
  keyfile :: "cfg_value option"
  use_reloader :: bool

datatype event =
    Log_warn string
  | Log_info string
  | Log_error string
  | Set_level_warning
  | Serve "MountTable option" hyper_config
  | Sleep real

text \<open>
  What the environment does with one call of \<^verbatim>\<open>serve\<close>: it returns or raises. A run of
  the coroutine is driven by a list of pairs, the time a call of \<^verbatim>\<open>serve\<close> takes and
  its outcome, one for each call. When the list is used up the coroutine is left awaiting
  the next call.
\<close>

datatype serve_outcome = Serve_returns | Serve_raises exn

datatype run_result = Returned | Raised exn | Awaiting_serve

fun truthy :: "cfg_value \<Rightarrow> bool" where
  "truthy (Str s) = (s \<noteq> [])"
| "truthy (Num n) = (n \<noteq> 0)"

text \<open>\<^verbatim>\<open>configuration.get(key) or None\<close>\<close>

definition get_or_None :: "(string \<rightharpoonup> cfg_value) \<Rightarrow> string \<Rightarrow> cfg_value option" where
  "get_or_None configuration key =
     (case configuration key of
        None \<Rightarrow> None
      | Some v \<Rightarrow> if truthy v then Some v else None)"

text \<open>Hypercorn: \<^verbatim>\<open>ssl_enabled\<close> is \<open>certfile is not None and keyfile is not None\<close>.\<close>

definition ssl_enabled :: "hyper_config \<Rightarrow> bool" where
  "ssl_enabled config \<longleftrightarrow> certfile config \<noteq> None \<and> keyfile config \<noteq> None"

definition max_retries :: nat where
  "max_retries = 3"

text \<open>
  The \<^verbatim>\<open>while True\<close> loop. \<open>now\<close> is the clock that \<^verbatim>\<open>current_time()\<close> reads: a call
  of \<^verbatim>\<open>serve\<close> that takes \<open>d\<close> advances it by \<open>d\<close>, \<^verbatim>\<open>sleep(1)\<close> by \<open>1\<close>.

  \<^verbatim>\<open>logger.info(...); started_at = current_time()
  try: await serve(exports["asgi_app"], config)
  except Exception:
      if current_time() - started_at >= 5: retries = 0
      if retries < max_retries:
          logger.error(...); await sleep(1); retries += 1
      else: raise
  else: break\<close>
\<close>

fun serve_loop ::
    "string \<Rightarrow> MountTable option \<Rightarrow> hyper_config \<Rightarrow> nat \<Rightarrow> real
       \<Rightarrow> (real \<times> serve_outcome) list \<Rightarrow> run_result \<times> event list" where
  "serve_loop msg app config retries now [] = (Awaiting_serve, [Log_info msg, Serve app config])"
| "serve_loop msg app config retries now ((d, outcome) # rest) =
     (let started_at = now
      in case outcome of
           Serve_returns \<Rightarrow> (Returned, [Log_info msg, Serve app config])
         | Serve_raises e \<Rightarrow>
             if is_Exception e then
               (let now1 = now + d;
                    retries1 = (if now1 - started_at \<ge> 5 then 0 else retries)
                in if retries1 < max_retries then
                     (let (r, evs) = serve_loop msg app config (retries1 + 1) (now1 + 1) rest
                      in (r, [Log_info msg, Serve app config,
                              Log_error ''Server stopped unexpectedly, retrying...'', Sleep 1]
                             @ evs))
                   else (Raised e, [Log_info msg, Serve app config]))
             else (Raised e, [Log_info msg, Serve app config]))"

text \<open>
  \<^verbatim>\<open>run(app, configuration, logger)\<close>. \<open>debug\<close> is \<open>app.debug\<close>;
  \<open>format_socket_address\<close> belongs to another package and is a parameter.
\<close>

definition run ::
    "bool \<Rightarrow> (string \<rightharpoonup> cfg_value) \<Rightarrow> (cfg_value \<times> cfg_value \<Rightarrow> string) \<Rightarrow> globals \<Rightarrow> real
       \<Rightarrow> (real \<times> serve_outcome) list \<Rightarrow> run_result \<times> event list" where
  "run debug configuration format_socket_address g now script =
     (case exports_address g of
        None \<Rightarrow> (Returned, [Log_warn ''HTTP server address is not specified in configuration''])
      | Some address \<Rightarrow>
          (let config = \<lparr>bind = [address],
                         certfile = get_or_None configuration ''certfile'',
                         keyfile = get_or_None configuration ''keyfile'',
                         use_reloader = False\<rparr>;
               secure = ssl_enabled config;
               msg = ''Starting '' @ (if secure then ''HTTPS'' else ''HTTP'') @ '' server on ''
                       @ format_socket_address address;
               (r, evs) = serve_loop msg (exports_asgi_app g) config 0 now script
           in (r, (if \<not> debug then [Set_level_warning] else []) @ evs)))"

section \<open>Specification-level notions\<close>

subsection \<open>Heap order\<close>

text \<open>
  \<open>heap_from lo h\<close>: every position from \<open>lo\<close> on is not greater than its children
  (the children of \<open>k\<close> are \<open>2 * k + 1\<close> and \<open>2 * k + 2\<close>, the parent of \<open>j\<close> is
  \<open>(j - 1) div 2\<close>). \<open>is_heap\<close> is the invariant of \<^verbatim>\<open>heapq\<close>.
\<close>

definition heap_from :: "nat \<Rightarrow> 'a::linorder list \<Rightarrow> bool" where
  "heap_from lo h \<longleftrightarrow>
     (\<forall>j<length h. 0 < j \<longrightarrow> lo \<le> (j - 1) div 2 \<longrightarrow> h ! ((j - 1) div 2) \<le> h ! j)"

definition is_heap :: "'a::linorder list \<Rightarrow> bool" where
  "is_heap h \<longleftrightarrow> heap_from 0 h"

text \<open>
  The invariant of both sifting loops: the position \<open>pos\<close> is a hole whose content does
  not count. Every parent and child away from the hole are in order, and the parent of the
  hole is not greater than the children of the hole.
\<close>

definition hole_inv :: "nat \<Rightarrow> 'a::linorder list \<Rightarrow> nat \<Rightarrow> bool" where
  "hole_inv lo h pos \<longleftrightarrow>
     (\<forall>j<length h. 0 < j \<longrightarrow> lo \<le> (j - 1) div 2 \<longrightarrow> (j - 1) div 2 \<noteq> pos \<longrightarrow> j \<noteq> pos
         \<longrightarrow> h ! ((j - 1) div 2) \<le> h ! j) \<and>
     (lo < pos \<longrightarrow> (\<forall>c<length h. 0 < c \<longrightarrow> (c - 1) div 2 = pos
         \<longrightarrow> h ! ((pos - 1) div 2) \<le> h ! c))"

text \<open>The child that one iteration of \<open>siftup_loop\<close> moves up.\<close>

definition smaller_child :: "'a::linorder list \<Rightarrow> nat \<Rightarrow> nat" where
  "smaller_child heap pos =
     (if 2 * pos + 2 < length heap \<and> \<not> heap ! (2 * pos + 1) < heap ! (2 * pos + 2)
      then 2 * pos + 2 else 2 * pos + 1)"

text \<open>\<open>below lo p\<close>: the position \<open>p\<close> lies in the subtree whose root is \<open>lo\<close>.\<close>

inductive below :: "nat \<Rightarrow> nat \<Rightarrow> bool" where
  below_refl: "below lo lo"
| below_left: "below lo p \<Longrightarrow> below lo (2 * p + 1)"
| below_right: "below lo p \<Longrightarrow> below lo (2 * p + 2)"

subsection \<open>Sequences of calls and live proposals\<close>

text \<open>
  A client of the module calls \<^verbatim>\<open>propose_index_page(route, priority)\<close> or a disposer that
  such a call has returned. A disposer depends on its \<open>page\<close> only, so \<open>Revoke r p\<close>
  stands for a call of a disposer returned by \<open>propose_index_page(r, p)\<close>. An exception of
  the disposer reaches the caller and leaves the list as it was.
\<close>

datatype call = Propose string int | Revoke string int

fun perform :: "call \<Rightarrow> ProposedIndexPage list \<Rightarrow> ProposedIndexPage list" where
  "perform (Propose r p) pages = snd (propose_index_page r p pages)"
| "perform (Revoke r p) pages =
     (case fst (propose_index_page r p pages) pages of
        Inl e \<Rightarrow> pages
      | Inr pages' \<Rightarrow> pages')"

fun perform_all :: "call list \<Rightarrow> ProposedIndexPage list \<Rightarrow> ProposedIndexPage list" where
  "perform_all [] pages = pages"
| "perform_all (c # cs) pages = perform_all cs (perform c pages)"

text \<open>
  The live proposals in the words of the specification: a proposal, a route with a
  priority, is created by a propose call and destroyed by its disposer. Proposals are
  told apart by their route and priority, as the module does: its list holds pages, and
  \<^verbatim>\<open>list.index\<close> finds a page that equals the one of the disposer. So a call of a
  disposer destroys one live proposal of its route and priority, if there is one.
\<close>

fun live_proposals :: "call list \<Rightarrow> (string \<times> int) list \<Rightarrow> (string \<times> int) list" where
  "live_proposals [] live = live"
| "live_proposals (Propose r p # cs) live = live_proposals cs (live @ [(r, p)])"
| "live_proposals (Revoke r p # cs) live = live_proposals cs (remove1 (r, p) live)"

text \<open>What \<open>get_index_url\<close> returns when the winner is the route \<open>r\<close>.\<close>

definition resolve :: "(string \<Rightarrow> exn + string) \<Rightarrow> string \<Rightarrow> exn + string option" where
  "resolve url_for r = (case url_for r of Inl e \<Rightarrow> Inl e | Inr u \<Rightarrow> Inr (Some u))"

text \<open>
  The pages that the list holds for the live proposals: a proposal of the route \<open>r\<close> with
  the priority \<open>p\<close> is stored as the page with the priority \<open>- p\<close>.
\<close>

definition stored :: "(string \<times> int) list \<Rightarrow> ProposedIndexPage multiset" where
  "stored live = mset (map (\<lambda>(r, p). new_page r p) live)"

text \<open>The priority that the proposer gave to a stored page.\<close>

definition proposed_priority :: "ProposedIndexPage \<Rightarrow> int" where
  "proposed_priority page = - priority page"

subsection \<open>Failure times\<close>

text \<open>
  The clock at each failure of \<^verbatim>\<open>serve\<close> when every call in the script fails and is
  retried: a call that starts at \<open>now\<close> and takes \<open>d\<close> fails at \<open>now + d\<close>, and the next
  one starts after the back-off of one time unit. \<open>gaps\<close> are the differences of
  consecutive failure times.
\<close>

fun failure_times :: "real \<Rightarrow> (real \<times> serve_outcome) list \<Rightarrow> real list" where
  "failure_times now [] = []"
| "failure_times now ((d, outcome) # rest) = (now + d) # failure_times (now + d + 1) rest"

fun gaps :: "real list \<Rightarrow> real list" where
  "gaps (a # b # ts) = (b - a) # gaps (b # ts)"
| "gaps ts = []"

text \<open>A script in which every call fails with an exception that the handler catches.\<close>

fun fails :: "serve_outcome \<Rightarrow> bool" where
  "fails Serve_returns = False"
| "fails (Serve_raises e) = is_Exception e"

definition all_fail :: "(real \<times> serve_outcome) list \<Rightarrow> bool" where
  "all_fail script \<longleftrightarrow> (\<forall>(d, outcome) \<in> set script. fails outcome)"

text \<open>Four calls that each fail after four time units, and a configuration without TLS.\<close>

definition crash_script :: "(real \<times> serve_outcome) list" where
  "crash_script = [(4, Serve_raises (Exception ''crash'')), (4, Serve_raises (Exception ''crash'')),
                   (4, Serve_raises (Exception ''crash'')), (4, Serve_raises (Exception ''crash''))]"

definition plain_config :: hyper_config where
  "plain_config = \<lparr>bind = [(Str ''localhost'', Num 5000)], certfile = None, keyfile = None,
                    use_reloader = False\<rparr>"

subsection \<open>Tables, globals and bodies used in examples\<close>

text \<open>The table of a router that \<open>create_app\<close> has just made.\<close>

definition empty_table :: MountTable where
  "empty_table = \<lparr>entries = [], next_id = 0\<rparr>"

text \<open>The table after mounting an application at \<open>/a\<close>, and then another one at \<open>/a/b\<close>.\<close>

definition table_a :: MountTable where
  "table_a = \<lparr>entries = [\<lparr>entry_id = 0, application = AsgiApp ''A'', pathPrefix = ''/a'',
                            acceptedScopes = [], entry_priority = 0\<rparr>], next_id = 1\<rparr>"

definition table_ab :: MountTable where
  "table_ab = \<lparr>entries = [\<lparr>entry_id = 0, application = AsgiApp ''A'', pathPrefix = ''/a'',
                            acceptedScopes = [], entry_priority = 0\<rparr>,
                           \<lparr>entry_id = 1, application = AsgiApp ''B'', pathPrefix = ''/a/b'',
                            acceptedScopes = [], entry_priority = 0\<rparr>], next_id = 2\<rparr>"

text \<open>The globals after \<open>load\<close> with the empty configuration and the port 5000.\<close>

definition loaded_globals :: globals where
  "loaded_globals =
     \<lparr>proposed_index_pages = [], quart_app = Some \<lparr>blueprints = []\<rparr>,
      exports_address = Some (Str ''localhost'', Num 5000),
      exports_asgi_app = Some empty_table\<rparr>"



section \<open>The heap queue keeps its invariant\<close>

declare siftdown_loop.simps [simp del] siftup_loop.simps [simp del]

lemma below_le: "below lo p \<Longrightarrow> lo \<le> p"
  by (induction rule: below.induct) auto

lemma below_parent: "below lo p \<Longrightarrow> p \<noteq> lo \<Longrightarrow> below lo ((p - 1) div 2)"
  by (induction rule: below.induct) auto

lemma below_zero: "below 0 p"
proof (induction p rule: less_induct)
  case (less p)
  show ?case
  proof (cases "p = 0")
    case True
    then show ?thesis by (simp add: below_refl)
  next
    case False
    then have "below 0 ((p - 1) div 2)" using less by simp
    moreover have "p = 2 * ((p - 1) div 2) + 1 \<or> p = 2 * ((p - 1) div 2) + 2"
      using False by presburger
    ultimately show ?thesis
      using below_left [of 0 "(p - 1) div 2"] below_right [of 0 "(p - 1) div 2"] by metis
  qed
qed

lemma siftdown_loop_move:
  "startpos < pos \<Longrightarrow> newitem < heap ! ((pos - 1) div 2) \<Longrightarrow>
     siftdown_loop heap newitem startpos pos =
       siftdown_loop (heap[pos := heap ! ((pos - 1) div 2)]) newitem startpos ((pos - 1) div 2)"
  by (subst siftdown_loop.simps) (simp add: Let_def)

lemma siftdown_loop_stop:
  "\<not> (startpos < pos \<and> newitem < heap ! ((pos - 1) div 2)) \<Longrightarrow>
     siftdown_loop heap newitem startpos pos = heap[pos := newitem]"
  by (subst siftdown_loop.simps) (auto simp: Let_def)

lemma siftup_loop_move:
  "2 * pos + 1 < length heap \<Longrightarrow>
     siftup_loop heap pos =
       siftup_loop (heap[pos := heap ! smaller_child heap pos]) (smaller_child heap pos)"
  by (subst siftup_loop.simps) (simp add: Let_def smaller_child_def)

lemma siftup_loop_stop:
  "\<not> 2 * pos + 1 < length heap \<Longrightarrow> siftup_loop heap pos = (heap, pos)"
  by (subst siftup_loop.simps) (simp add: Let_def)

lemma smaller_child_range:
  "2 * pos + 1 < length heap \<Longrightarrow>
     smaller_child heap pos < length heap \<and> pos < smaller_child heap pos
       \<and> (smaller_child heap pos - 1) div 2 = pos"
  by (auto simp: smaller_child_def)

lemma smaller_child_le:
  assumes "2 * pos + 1 < length heap" "j < length heap" "0 < j" "(j - 1) div 2 = pos"
  shows "heap ! smaller_child heap pos \<le> heap ! j"
proof -
  have "j = 2 * pos + 1 \<or> j = 2 * pos + 2" using assms(3,4) by presburger
  then show ?thesis using assms(1,2) by (auto simp: smaller_child_def)
qed

lemma length_siftdown_loop [simp]: "length (siftdown_loop h x lo pos) = length h"
proof (induction pos arbitrary: h rule: less_induct)
  case (less pos)
  show ?case
  proof (cases "lo < pos \<and> x < h ! ((pos - 1) div 2)")
    case True
    then have "(pos - 1) div 2 < pos" by auto
    then show ?thesis using less True by (simp add: siftdown_loop_move)
  next
    case False
    then show ?thesis by (simp add: siftdown_loop_stop)
  qed
qed

lemma mset_swap_hole:
  assumes "p < length h" "q < length h" "p \<noteq> q"
  shows "mset (h[p := h ! q, q := x]) = mset (h[p := x])"
  using assms by (simp add: mset_update nth_list_update)

lemma mset_siftdown_loop:
  "pos < length h \<Longrightarrow> mset (siftdown_loop h x lo pos) = mset (h[pos := x])"
proof (induction pos arbitrary: h rule: less_induct)
  case (less pos)
  let ?pp = "(pos - 1) div 2"
  show ?case
  proof (cases "lo < pos \<and> x < h ! ?pp")
    case True
    then have pp: "?pp < pos" by auto
    have "mset (siftdown_loop h x lo pos) = mset (siftdown_loop (h[pos := h ! ?pp]) x lo ?pp)"
      using True by (simp add: siftdown_loop_move)
    also have "\<dots> = mset (h[pos := h ! ?pp, ?pp := x])"
      using less.IH [OF pp, of "h[pos := h ! ?pp]"] pp less.prems by simp
    also have "\<dots> = mset (h[pos := x])"
      using mset_swap_hole [of pos h ?pp x] pp less.prems by simp
    finally show ?thesis .
  next
    case False
    then show ?thesis by (simp add: siftdown_loop_stop)
  qed
qed

lemma siftup_loop_props:
  "siftup_loop h pos = (h', pos') \<Longrightarrow>
     length h' = length h \<and> pos \<le> pos' \<and> (pos < length h \<longrightarrow> pos' < length h)
       \<and> length h \<le> 2 * pos' + 1"
proof (induction "length h - pos" arbitrary: h pos rule: less_induct)
  case less
  show ?case
  proof (cases "2 * pos + 1 < length h")
    case True
    let ?c = "smaller_child h pos"
    note c = smaller_child_range [OF True]
    have step: "siftup_loop (h[pos := h ! ?c]) ?c = (h', pos')"
      using less.prems True by (simp add: siftup_loop_move)
    have "length (h[pos := h ! ?c]) - ?c < length h - pos" using c by auto
    from less.hyps [OF this step] c show ?thesis by simp
  next
    case False
    then show ?thesis using less.prems by (simp add: siftup_loop_stop)
  qed
qed

lemma mset_siftup_loop:
  "siftup_loop h pos = (h', pos') \<Longrightarrow> pos < length h \<Longrightarrow>
     mset (h'[pos' := x]) = mset (h[pos := x])"
proof (induction "length h - pos" arbitrary: h pos rule: less_induct)
  case less
  show ?case
  proof (cases "2 * pos + 1 < length h")
    case True
    let ?c = "smaller_child h pos"
    note c = smaller_child_range [OF True]
    have step: "siftup_loop (h[pos := h ! ?c]) ?c = (h', pos')"
      using less.prems True by (simp add: siftup_loop_move)
    have "length (h[pos := h ! ?c]) - ?c < length h - pos" using c by auto
    from less.hyps [OF this step] c
    have "mset (h'[pos' := x]) = mset (h[pos := h ! ?c, ?c := x])" by simp
    also have "\<dots> = mset (h[pos := x])"
      using mset_swap_hole [of pos h ?c x] c less.prems by simp
    finally show ?thesis .
  next
    case False
    then show ?thesis using less.prems by (simp add: siftup_loop_stop)
  qed
qed

lemma length_siftup [simp]: "length (siftup h pos) = length h"
proof -
  obtain h' pos' where s: "siftup_loop h pos = (h', pos')" by (cases "siftup_loop h pos")
  show ?thesis
    using siftup_loop_props [OF s] by (simp add: siftup_def siftdown_def s Let_def)
qed

lemma mset_siftup: "pos < length h \<Longrightarrow> mset (siftup h pos) = mset h"
proof -
  assume pos: "pos < length h"
  obtain h' pos' where s: "siftup_loop h pos = (h', pos')" by (cases "siftup_loop h pos")
  have p: "length h' = length h" "pos' < length h"
    using siftup_loop_props [OF s] pos by auto
  have "mset (siftup h pos) = mset (h'[pos' := h ! pos])"
    using p by (simp add: siftup_def siftdown_def mset_siftdown_loop s Let_def)
  also have "\<dots> = mset (h[pos := h ! pos])"
    using mset_siftup_loop [OF s pos] .
  finally show ?thesis by simp
qed

lemma length_heapify_loop [simp]: "length (heapify_loop x k) = length x"
  by (induction k arbitrary: x) auto

lemma mset_heapify_loop: "k \<le> length x \<Longrightarrow> mset (heapify_loop x k) = mset x"
  by (induction k arbitrary: x) (auto simp: mset_siftup)

lemma mset_heapify: "mset (heapify x) = mset x"
  by (simp add: heapify_def mset_heapify_loop)

lemma length_heapify [simp]: "length (heapify x) = length x"
  by (simp add: heapify_def)

lemma mset_heappush: "mset (heappush h x) = add_mset x (mset h)"
  by (simp add: heappush_def siftdown_def mset_siftdown_loop)

lemma length_heappush [simp]: "length (heappush h x) = Suc (length h)"
  by (simp add: heappush_def siftdown_def)

lemma hole_inv_update [simp]: "hole_inv lo (h[pos := x]) pos = hole_inv lo h pos"
proof -
  have "pos > 0 \<Longrightarrow> (pos - 1) div 2 \<noteq> pos" by presburger
  then show ?thesis
    unfolding hole_inv_def by (auto simp: nth_list_update)
qed

lemma heap_from_hole: "heap_from (Suc i) h \<Longrightarrow> hole_inv i h i"
  unfolding heap_from_def hole_inv_def
proof (intro conjI allI impI)
  fix j
  assume a: "\<forall>j<length h. 0 < j \<longrightarrow> Suc i \<le> (j - 1) div 2 \<longrightarrow> h ! ((j - 1) div 2) \<le> h ! j"
    and j: "j < length h" "0 < j" "i \<le> (j - 1) div 2" "(j - 1) div 2 \<noteq> i"
  from j have "Suc i \<le> (j - 1) div 2" by simp
  with a j show "h ! ((j - 1) div 2) \<le> h ! j" by blast
next
  fix c
  assume "i < i"
  then show "h ! ((i - 1) div 2) \<le> h ! c" by simp
qed

lemma siftdown_loop_heap:
  assumes "hole_inv lo h pos" "pos < length h" "below lo pos"
    and "\<forall>c<length h. 0 < c \<longrightarrow> (c - 1) div 2 = pos \<longrightarrow> x \<le> h ! c"
  shows "heap_from lo (siftdown_loop h x lo pos)"
  using assms
proof (induction pos arbitrary: h rule: less_induct)
  case (less pos)
  let ?pp = "(pos - 1) div 2"
  let ?n = "length h"
  have inv1: "\<And>j. j < ?n \<Longrightarrow> 0 < j \<Longrightarrow> lo \<le> (j - 1) div 2 \<Longrightarrow> (j - 1) div 2 \<noteq> pos
                 \<Longrightarrow> j \<noteq> pos \<Longrightarrow> h ! ((j - 1) div 2) \<le> h ! j"
    using less.prems(1) unfolding hole_inv_def by blast
  have inv2: "\<And>c. lo < pos \<Longrightarrow> c < ?n \<Longrightarrow> 0 < c \<Longrightarrow> (c - 1) div 2 = pos
                 \<Longrightarrow> h ! ?pp \<le> h ! c"
    using less.prems(1) unfolding hole_inv_def by blast
  have kids: "\<And>c. c < ?n \<Longrightarrow> 0 < c \<Longrightarrow> (c - 1) div 2 = pos \<Longrightarrow> x \<le> h ! c"
    using less.prems(4) by blast
  have lo_le: "lo \<le> pos" using below_le [OF less.prems(3)] .
  show ?case
  proof (cases "lo < pos \<and> x < h ! ?pp")
    case True
    let ?h' = "h[pos := h ! ?pp]"
    have pp: "?pp < pos" "0 < pos" using True by auto
    have bpp: "below lo ?pp" using below_parent [OF less.prems(3)] True by simp
    have lopp: "lo \<le> ?pp" using below_le [OF bpp] .
    have ppn: "?pp < length ?h'" using pp less.prems(2) by simp
    have up: "lo < ?pp \<Longrightarrow> h ! ((?pp - 1) div 2) \<le> h ! ?pp"
    proof -
      assume a: "lo < ?pp"
      then have "below lo ((?pp - 1) div 2)" using below_parent [OF bpp] by simp
      then have "lo \<le> (?pp - 1) div 2" by (rule below_le)
      moreover have "(?pp - 1) div 2 \<le> ?pp" by simp
      then have "(?pp - 1) div 2 \<noteq> pos" using pp by linarith
      ultimately show ?thesis using inv1 [of ?pp] a pp less.prems(2) by simp
    qed
    have hi: "hole_inv lo ?h' ?pp"
      unfolding hole_inv_def
    proof (intro conjI allI impI)
      fix j
      assume j: "j < length ?h'" "0 < j" "lo \<le> (j - 1) div 2" "(j - 1) div 2 \<noteq> ?pp" "j \<noteq> ?pp"
      then have jp: "j \<noteq> pos" by auto
      show "?h' ! ((j - 1) div 2) \<le> ?h' ! j"
      proof (cases "(j - 1) div 2 = pos")
        case True
        then show ?thesis using inv2 [of j] j jp \<open>lo < pos \<and> x < h ! ?pp\<close> less.prems(2) by simp
      next
        case False
        then show ?thesis using inv1 [of j] j jp by simp
      qed
    next
      fix c
      assume c: "lo < ?pp" "c < length ?h'" "0 < c" "(c - 1) div 2 = ?pp"
      have "(?pp - 1) div 2 \<le> ?pp" by simp
      then have ne: "(?pp - 1) div 2 \<noteq> pos" using pp by linarith
      show "?h' ! ((?pp - 1) div 2) \<le> ?h' ! c"
      proof (cases "c = pos")
        case True
        then show ?thesis using up [OF c(1)] ne less.prems(2) by simp
      next
        case False
        have "h ! ?pp \<le> h ! c" using inv1 [of c] c False lopp pp by simp
        then show ?thesis using up [OF c(1)] ne False by simp
      qed
    qed
    have kids': "\<forall>c<length ?h'. 0 < c \<longrightarrow> (c - 1) div 2 = ?pp \<longrightarrow> x \<le> ?h' ! c"
    proof (intro allI impI)
      fix c
      assume c: "c < length ?h'" "0 < c" "(c - 1) div 2 = ?pp"
      show "x \<le> ?h' ! c"
      proof (cases "c = pos")
        case True
        have "x \<le> h ! ?pp" using \<open>lo < pos \<and> x < h ! ?pp\<close> by auto
        then show ?thesis using True less.prems(2) by simp
      next
        case False
        have "h ! ?pp \<le> h ! c" using inv1 [of c] c False lopp pp by simp
        moreover have "x \<le> h ! ?pp" using \<open>lo < pos \<and> x < h ! ?pp\<close> by auto
        ultimately have "x \<le> h ! c" by (rule order_trans [rotated])
        then show ?thesis using False by simp
      qed
    qed
    have "heap_from lo (siftdown_loop ?h' x lo ?pp)"
      using less.IH [OF pp(1) hi ppn bpp kids'] .
    then show ?thesis using True by (simp add: siftdown_loop_move)
  next
    case False
    have "heap_from lo (h[pos := x])"
      unfolding heap_from_def
    proof (intro allI impI)
      fix j
      assume j: "j < length (h[pos := x])" "0 < j" "lo \<le> (j - 1) div 2"
      show "h[pos := x] ! ((j - 1) div 2) \<le> h[pos := x] ! j"
      proof (cases "j = pos")
        case True
        then have "?pp < pos" "lo < pos" using j by auto
        then have "h ! ?pp \<le> x" using False by auto
        then show ?thesis using True \<open>?pp < pos\<close> less.prems(2) by simp
      next
        case jp: False
        show ?thesis
        proof (cases "(j - 1) div 2 = pos")
          case True
          then show ?thesis using kids [of j] j jp less.prems(2) by simp
        next
          case False
          then show ?thesis using inv1 [of j] j jp by simp
        qed
      qed
    qed
    then show ?thesis using False by (simp add: siftdown_loop_stop)
  qed
qed

lemma siftup_loop_hole:
  assumes "siftup_loop h pos = (h', pos')" "hole_inv lo h pos" "below lo pos"
  shows "hole_inv lo h' pos' \<and> below lo pos'"
  using assms
proof (induction "length h - pos" arbitrary: h pos rule: less_induct)
  case less
  let ?n = "length h"
  have inv1: "\<And>j. j < ?n \<Longrightarrow> 0 < j \<Longrightarrow> lo \<le> (j - 1) div 2 \<Longrightarrow> (j - 1) div 2 \<noteq> pos
                 \<Longrightarrow> j \<noteq> pos \<Longrightarrow> h ! ((j - 1) div 2) \<le> h ! j"
    using less.prems(2) unfolding hole_inv_def by blast
  have inv2: "\<And>c. lo < pos \<Longrightarrow> c < ?n \<Longrightarrow> 0 < c \<Longrightarrow> (c - 1) div 2 = pos
                 \<Longrightarrow> h ! ((pos - 1) div 2) \<le> h ! c"
    using less.prems(2) unfolding hole_inv_def by blast
  have lo_le: "lo \<le> pos" using below_le [OF less.prems(3)] .
  show ?case
  proof (cases "2 * pos + 1 < length h")
    case True
    let ?c = "smaller_child h pos"
    let ?h' = "h[pos := h ! ?c]"
    note c = smaller_child_range [OF True]
    have cpos: "0 < ?c" "?c \<noteq> pos" "pos < ?n" using c by auto
    have step: "siftup_loop ?h' ?c = (h', pos')"
      using less.prems(1) True by (simp add: siftup_loop_move)
    have m: "length ?h' - ?c < length h - pos" using c by auto
    have bc: "below lo ?c"
    proof -
      have "?c = 2 * pos + 1 \<or> ?c = 2 * pos + 2" by (simp add: smaller_child_def)
      then show ?thesis
        using below_left [OF less.prems(3)] below_right [OF less.prems(3)] by metis
    qed
    have hi: "hole_inv lo ?h' ?c"
      unfolding hole_inv_def
    proof (intro conjI allI impI)
      fix j
      assume j: "j < length ?h'" "0 < j" "lo \<le> (j - 1) div 2" "(j - 1) div 2 \<noteq> ?c" "j \<noteq> ?c"
      show "?h' ! ((j - 1) div 2) \<le> ?h' ! j"
      proof (cases "j = pos")
        case True
        then have pp: "(pos - 1) div 2 < pos" "lo < pos" using j by auto
        have "h ! ((pos - 1) div 2) \<le> h ! ?c" using inv2 [of ?c] pp c by simp
        then show ?thesis using True pp cpos by simp
      next
        case jp: False
        show ?thesis
        proof (cases "(j - 1) div 2 = pos")
          case True
          have "h ! ?c \<le> h ! j"
            using smaller_child_le [OF \<open>2 * pos + 1 < length h\<close>, of j] j True by simp
          then show ?thesis using True jp cpos by simp
        next
          case False
          then show ?thesis using inv1 [of j] j jp by simp
        qed
      qed
    next
      fix g
      assume g: "lo < ?c" "g < length ?h'" "0 < g" "(g - 1) div 2 = ?c"
      then have gp: "g \<noteq> pos" using c by auto
      have "h ! ?c \<le> h ! g" using inv1 [of g] g gp cpos lo_le c by simp
      then show "?h' ! ((?c - 1) div 2) \<le> ?h' ! g" using c gp cpos by simp
    qed
    show ?thesis using less.hyps [OF m step hi bc] .
  next
    case False
    then show ?thesis using less.prems by (simp add: siftup_loop_stop)
  qed
qed

lemma siftup_heap:
  assumes "heap_from (Suc i) h" "i < length h"
  shows "heap_from i (siftup h i)"
proof -
  obtain h' pos' where s: "siftup_loop h i = (h', pos')" by (cases "siftup_loop h i")
  note p = siftup_loop_props [OF s]
  have hb: "hole_inv i h' pos'" "below i pos'"
    using siftup_loop_hole [OF s heap_from_hole [OF assms(1)] below_refl] by auto
  let ?g = "h'[pos' := h ! i]"
  have n: "pos' < length ?g" using p assms(2) by simp
  have leaf: "\<forall>c<length ?g. 0 < c \<longrightarrow> (c - 1) div 2 = pos' \<longrightarrow> h ! i \<le> ?g ! c"
  proof (intro allI impI)
    fix c assume "c < length ?g" "0 < c" "(c - 1) div 2 = pos'"
    then have False using p by auto
    then show "h ! i \<le> ?g ! c" ..
  qed
  have "heap_from i (siftdown_loop ?g (h ! i) i pos')"
    using siftdown_loop_heap [of i ?g pos' "h ! i"] hb n leaf by simp
  then show ?thesis using n by (simp add: siftup_def siftdown_def s Let_def)
qed

lemma heapify_loop_heap:
  "heap_from k x \<Longrightarrow> k \<le> length x div 2 \<Longrightarrow> heap_from 0 (heapify_loop x k)"
proof (induction k arbitrary: x)
  case 0
  then show ?case by simp
next
  case (Suc k)
  have "k < length x" using Suc.prems(2) by auto
  then have "heap_from k (siftup x k)" using siftup_heap Suc.prems(1) by blast
  then show ?case using Suc.IH [of "siftup x k"] Suc.prems(2) by simp
qed

lemma heap_from_leaves: "heap_from (length x div 2) x"
  unfolding heap_from_def by auto

lemma heapify_heap: "heap_from 0 (heapify x)"
  unfolding heapify_def by (rule heapify_loop_heap [OF heap_from_leaves]) simp

lemma heappush_heap:
  assumes "heap_from 0 h"
  shows "heap_from 0 (heappush h x)"
proof -
  let ?g = "h @ [x]"
  let ?n = "length h"
  have hi: "hole_inv 0 ?g ?n"
    unfolding hole_inv_def
  proof (intro conjI allI impI)
    fix j
    assume j: "j < length ?g" "0 < j" "(j - 1) div 2 \<noteq> ?n" "j \<noteq> ?n"
    then have "j < ?n" "(j - 1) div 2 < ?n" by auto
    then show "?g ! ((j - 1) div 2) \<le> ?g ! j"
      using assms j unfolding heap_from_def by (simp add: nth_append)
  next
    fix c
    assume "0 < ?n" "c < length ?g" "0 < c" "(c - 1) div 2 = ?n"
    then have False by auto
    then show "?g ! ((?n - 1) div 2) \<le> ?g ! c" ..
  qed
  have leaf: "\<forall>c<length ?g. 0 < c \<longrightarrow> (c - 1) div 2 = ?n \<longrightarrow> x \<le> ?g ! c"
    by auto
  have "heap_from 0 (siftdown_loop ?g x 0 ?n)"
    using siftdown_loop_heap [OF hi _ below_zero leaf] by simp
  then show ?thesis by (simp add: heappush_def siftdown_def)
qed

lemma heap_top_le:
  assumes "heap_from 0 h"
  shows "i < length h \<Longrightarrow> h ! 0 \<le> h ! i"
proof (induction i rule: less_induct)
  case (less i)
  show ?case
  proof (cases "i = 0")
    case True
    then show ?thesis by simp
  next
    case False
    then have p: "(i - 1) div 2 < i" by auto
    have "h ! ((i - 1) div 2) \<le> h ! i"
      using assms False less.prems unfolding heap_from_def by simp
    moreover have "h ! 0 \<le> h ! ((i - 1) div 2)" using less.IH [OF p] p less.prems by simp
    ultimately show ?thesis by simp
  qed
qed

lemma heap_hd_least: "heap_from 0 h \<Longrightarrow> y \<in> set h \<Longrightarrow> hd h \<le> y"
  by (metis heap_top_le hd_conv_nth in_set_conv_nth length_pos_if_in_set less_numeral_extra(3) list.size(3))

section \<open>Index pages\<close>

lemma list_index_absent: "v \<notin> set xs \<Longrightarrow> list_index xs v = Inl ValueError"
  by (induction xs) auto

lemma list_index_present:
  "v \<in> set xs \<Longrightarrow> \<exists>i. list_index xs v = Inr i \<and> i < length xs \<and> xs ! i = v"
  by (induction xs) auto

lemma mset_drop_at:
  assumes "i < length xs"
  shows "mset (butlast (xs[i := last xs])) = mset xs - {#xs ! i#}"
proof -
  from assms have ne: "xs \<noteq> []" by auto
  then obtain ys z where xs: "xs = ys @ [z]" by (metis rev_exhaust)
  show ?thesis
  proof (cases "i < length ys")
    case True
    then have "butlast (xs[i := last xs]) = ys[i := z]"
      using xs by (simp add: list_update_append)
    moreover have "xs ! i = ys ! i" using True xs by (simp add: nth_append)
    ultimately show ?thesis using True xs by (simp add: mset_update)
  next
    case False
    then have "i = length ys" using assms xs by simp
    then show ?thesis using xs by simp
  qed
qed

lemma disposer_absent: "page \<notin> set pages \<Longrightarrow> disposer page pages = Inl ValueError"
  by (simp add: disposer_def list_index_absent)

lemma disposer_present:
  assumes "page \<in> set pages"
  shows "\<exists>pages'. disposer page pages = Inr pages' \<and> mset pages' = mset pages - {#page#}
           \<and> is_heap pages'"
proof -
  obtain i where i: "list_index pages page = Inr i" "i < length pages" "pages ! i = page"
    using list_index_present [OF assms] by blast
  have "disposer page pages = Inr (heapify (butlast (pages[i := last pages])))"
    using i by (simp add: disposer_def)
  moreover have "mset (heapify (butlast (pages[i := last pages]))) = mset pages - {#page#}"
    using mset_drop_at [OF i(2)] i(3) by (simp add: mset_heapify)
  moreover have "is_heap (heapify (butlast (pages[i := last pages])))"
    by (simp add: is_heap_def heapify_heap)
  ultimately show ?thesis by blast
qed

lemma is_heap_Nil: "is_heap ([] :: 'a::linorder list)"
  by (simp add: is_heap_def heap_from_def)

lemma is_heap_hd: "is_heap h \<Longrightarrow> y \<in> set h \<Longrightarrow> hd h \<le> y"
  by (simp add: is_heap_def heap_hd_least)

lemma new_page_inj: "new_page r p = new_page r' p' \<longleftrightarrow> r = r' \<and> p = p'"
  by (auto simp: new_page_def)



lemma stored_member: "new_page r p \<in># stored live \<longleftrightarrow> (r, p) \<in> set live"
  by (auto simp: stored_def new_page_inj image_iff split: prod.splits)

lemma stored_remove1:
  "(r, p) \<in> set live \<Longrightarrow> stored (remove1 (r, p) live) = stored live - {#new_page r p#}"
proof (induction live)
  case Nil
  then show ?case by simp
next
  case (Cons a live)
  show ?case
  proof (cases "a = (r, p)")
    case True
    then show ?thesis by (simp add: stored_def)
  next
    case False
    then have ne: "(case a of (r, p) \<Rightarrow> new_page r p) \<noteq> new_page r p"
      by (cases a) (simp add: new_page_inj)
    have "(r, p) \<in> set live" using Cons.prems False by auto
    then have "stored (remove1 (r, p) live) = stored live - {#new_page r p#}" by (rule Cons.IH)
    then show ?thesis using False ne by (simp add: stored_def)
  qed
qed

lemma propose_index_page_eq:
  "propose_index_page r p pages = (disposer (new_page r p), heappush pages (new_page r p))"
  by (simp add: propose_index_page_def Let_def)

lemma perform_inv:
  assumes "is_heap pages" "mset pages = stored live"
  shows "is_heap (perform c pages) \<and> mset (perform c pages) = stored (live_proposals [c] live)"
proof (cases c)
  case (Propose r p)
  then show ?thesis
    using assms heappush_heap [of pages "new_page r p"]
    by (simp add: propose_index_page_eq is_heap_def mset_heappush stored_def)
next
  case (Revoke r p)
  show ?thesis
  proof (cases "(r, p) \<in> set live")
    case True
    then have "new_page r p \<in> set pages"
      using stored_member [of r p live] assms(2) by (metis set_mset_mset)
    from disposer_present [OF this] obtain pages' where
      p: "disposer (new_page r p) pages = Inr pages'"
         "mset pages' = mset pages - {#new_page r p#}" "is_heap pages'" by blast
    then show ?thesis
      using Revoke True assms(2) by (simp add: propose_index_page_eq stored_remove1)
  next
    case False
    then have "new_page r p \<notin> set pages"
      using stored_member [of r p live] assms(2) by (metis set_mset_mset)
    then have "disposer (new_page r p) pages = Inl ValueError" by (rule disposer_absent)
    then show ?thesis
      using Revoke False assms by (simp add: propose_index_page_eq remove1_idem)
  qed
qed

lemma live_proposals_step: "live_proposals (c # cs) live = live_proposals cs (live_proposals [c] live)"
  by (cases c) simp_all

lemma perform_all_inv:
  "is_heap pages \<Longrightarrow> mset pages = stored live \<Longrightarrow>
     is_heap (perform_all cs pages) \<and> mset (perform_all cs pages) = stored (live_proposals cs live)"
proof (induction cs arbitrary: pages live)
  case Nil
  then show ?case by simp
next
  case (Cons c cs)
  from perform_inv [OF Cons.prems, of c]
  have "is_heap (perform c pages)" "mset (perform c pages) = stored (live_proposals [c] live)"
    by auto
  from Cons.IH [OF this] show ?case
    by (subst live_proposals_step) simp
qed

lemma reachable_inv:
  "is_heap (perform_all cs []) \<and> mset (perform_all cs []) = stored (live_proposals cs [])"
  by (rule perform_all_inv) (simp_all add: is_heap_Nil stored_def)




lemma get_index_url_Nil: "get_index_url url_for [] = Inr None"
  by (simp add: get_index_url_def)

lemma get_index_url_hd: "pages \<noteq> [] \<Longrightarrow> get_index_url url_for pages = resolve url_for (route (hd pages))"
  by (cases pages) (simp_all add: get_index_url_def resolve_def)

lemma new_page_le:
  "new_page r p \<le> new_page r' p' \<longleftrightarrow> p' < p \<or> (p' = p \<and> r \<le> r')"
  by (auto simp: new_page_def less_eq_ProposedIndexPage_def)

lemma stored_empty: "stored live = {#} \<longleftrightarrow> live = []"
  by (simp add: stored_def)

lemma winner_least:
  assumes "is_heap pages" "mset pages = stored live" "live \<noteq> []"
  shows "\<exists>(r, p) \<in> set live. hd pages = new_page r p
            \<and> (\<forall>(r', p') \<in> set live. p' < p \<or> (p' = p \<and> r \<le> r'))"
proof -
  have ne: "pages \<noteq> []" using assms(2,3) stored_empty [of live] by auto
  then have "hd pages \<in># stored live" using assms(2) by (metis hd_in_set set_mset_mset)
  then obtain r p where rp: "(r, p) \<in> set live" "hd pages = new_page r p"
    by (auto simp: stored_def)
  have "p' < p \<or> (p' = p \<and> r \<le> r')" if a: "(r', p') \<in> set live" for r' p'
  proof -
    have "new_page r' p' \<in> set pages"
      using a stored_member [of r' p' live] assms(2) by (metis set_mset_mset)
    then have "new_page r p \<le> new_page r' p'" using is_heap_hd [OF assms(1)] rp(2) by simp
    then show ?thesis by (simp add: new_page_le)
  qed
  then have "\<forall>(r', p') \<in> set live. p' < p \<or> (p' = p \<and> r \<le> r')" by auto
  with rp show ?thesis by blast
qed

subsection \<open>C1: the winner after any sequence of calls\<close>



lemma page_le_priority: "(a :: ProposedIndexPage) \<le> b \<Longrightarrow> proposed_priority b \<le> proposed_priority a"
  by (auto simp: less_eq_ProposedIndexPage_def proposed_priority_def)

subsection \<open>C2: revoking at the edges\<close>

text \<open>
  Claim C2. Revoking a proposal (swap with the last element, shrink, heapify) is correct at
  the edges. For any page of the list, which covers the current winner and the last element,
  the disposer removes one copy of that page and leaves a heap, so that the new winner is
  the route of a page of maximal priority among the remaining ones. Revoking the only page
  leaves the empty list, for which \<open>get_index_url\<close> is \<open>None\<close>. Revoking the page that
  was pushed last on a heap leaves a heap with the elements that were there before the push.
\<close>

theorem revoke_edge_cases:
  "(page \<in> set pages \<longrightarrow>
      (\<exists>pages'. disposer page pages = Inr pages' \<and> mset pages' = mset pages - {#page#}
          \<and> is_heap pages'
          \<and> (pages' \<noteq> [] \<longrightarrow>
                get_index_url url_for pages' = resolve url_for (route (hd pages'))
                \<and> (\<forall>q \<in># mset pages - {#page#}.
                      proposed_priority q \<le> proposed_priority (hd pages')))))
   \<and> disposer page [page] = Inr []
   \<and> get_index_url url_for [] = Inr None
   \<and> (is_heap pages \<longrightarrow>
        (\<exists>pages'. disposer page (heappush pages page) = Inr pages' \<and> is_heap pages'
            \<and> mset pages' = mset pages))"
proof -
  have a: "page \<in> set pages \<longrightarrow>
      (\<exists>pages'. disposer page pages = Inr pages' \<and> mset pages' = mset pages - {#page#}
          \<and> is_heap pages'
          \<and> (pages' \<noteq> [] \<longrightarrow>
                get_index_url url_for pages' = resolve url_for (route (hd pages'))
                \<and> (\<forall>q \<in># mset pages - {#page#}.
                      proposed_priority q \<le> proposed_priority (hd pages'))))"
  proof
    assume "page \<in> set pages"
    from disposer_present [OF this] obtain pages' where
      p: "disposer page pages = Inr pages'" "mset pages' = mset pages - {#page#}" "is_heap pages'"
      by blast
    have "\<forall>q \<in># mset pages - {#page#}. proposed_priority q \<le> proposed_priority (hd pages')"
    proof
      fix q assume "q \<in># mset pages - {#page#}"
      then have "q \<in> set pages'" using p(2) by (metis set_mset_mset)
      then show "proposed_priority q \<le> proposed_priority (hd pages')"
        using is_heap_hd [OF p(3)] page_le_priority by blast
    qed
    then show "\<exists>pages'. disposer page pages = Inr pages' \<and> mset pages' = mset pages - {#page#}
          \<and> is_heap pages'
          \<and> (pages' \<noteq> [] \<longrightarrow>
                get_index_url url_for pages' = resolve url_for (route (hd pages'))
                \<and> (\<forall>q \<in># mset pages - {#page#}.
                      proposed_priority q \<le> proposed_priority (hd pages')))"
      using p get_index_url_hd by blast
  qed
  have b: "disposer page [page] = Inr []"
    by (simp add: disposer_def heapify_def)
  have c: "is_heap pages \<longrightarrow>
        (\<exists>pages'. disposer page (heappush pages page) = Inr pages' \<and> is_heap pages'
            \<and> mset pages' = mset pages)"
  proof
    have "page \<in> set (heappush pages page)"
      using mset_heappush [of pages page] by (metis set_mset_mset union_single_eq_member)
    from disposer_present [OF this] show "\<exists>pages'. disposer page (heappush pages page) = Inr pages' \<and> is_heap pages'
            \<and> mset pages' = mset pages"
      by (auto simp: mset_heappush)
  qed
  from a b c show ?thesis by (simp add: get_index_url_Nil)
qed

theorem revoke_edge_cases_witness:
  "ProposedIndexPage (- 5) ''debug.index''
      \<in> set [ProposedIndexPage (- 5) ''debug.index'', ProposedIndexPage (- 1) ''docs.index'']
   \<and> is_heap [ProposedIndexPage (- 5) ''debug.index'', ProposedIndexPage (- 1) ''docs.index'']
   \<and> (\<exists>pages'. disposer (ProposedIndexPage (- 5) ''debug.index'')
         [ProposedIndexPage (- 5) ''debug.index'', ProposedIndexPage (- 1) ''docs.index'']
          = Inr pages'
        \<and> mset pages' = {#ProposedIndexPage (- 1) ''docs.index''#}
        \<and> get_index_url (\<lambda>r. Inr (''/'' @ r)) pages' = Inr (Some ''/docs.index''))
   \<and> (\<exists>pages'. disposer (ProposedIndexPage (- 1) ''docs.index'')
         (heappush [ProposedIndexPage (- 5) ''debug.index'', ProposedIndexPage (- 1) ''docs.index'']
            (ProposedIndexPage (- 1) ''docs.index''))
          = Inr pages'
        \<and> is_heap pages'
        \<and> mset pages'
            = {#ProposedIndexPage (- 5) ''debug.index'', ProposedIndexPage (- 1) ''docs.index''#})"
proof -
  let ?a = "ProposedIndexPage (- 5) ''debug.index''" and ?b = "ProposedIndexPage (- 1) ''docs.index''"
  let ?uf = "\<lambda>r. Inr (''/'' @ r) :: exn + string"
  have h: "is_heap [?a, ?b]"
    by (simp add: is_heap_def heap_from_def less_Suc_eq less_eq_ProposedIndexPage_def)
  have m: "?a \<in> set [?a, ?b]" by simp
  from revoke_edge_cases [of ?a "[?a, ?b]" ?uf] m obtain pages' where
    p: "disposer ?a [?a, ?b] = Inr pages'" "mset pages' = mset [?a, ?b] - {#?a#}"
       "pages' \<noteq> [] \<longrightarrow> get_index_url ?uf pages' = resolve ?uf (route (hd pages'))"
    by blast
  have q: "mset pages' = {#?b#}" using p(2) by simp
  then have "pages' = [?b]" by (metis mset.simps(1) mset.simps(2) mset_single_iff_right)
  then have "get_index_url ?uf pages' = Inr (Some ''/docs.index'')"
    using p(3) by (simp add: resolve_def)
  then have first: "\<exists>pages'. disposer ?a [?a, ?b] = Inr pages' \<and> mset pages' = {#?b#}
      \<and> get_index_url ?uf pages' = Inr (Some ''/docs.index'')"
    using p(1) q by blast
  have second: "\<exists>pages'. disposer ?b (heappush [?a, ?b] ?b) = Inr pages' \<and> is_heap pages'
      \<and> mset pages' = {#?a, ?b#}"
    using revoke_edge_cases [of ?b "[?a, ?b]" ?uf] h by auto
  from h m first second show ?thesis by blast
qed

subsection \<open>C4: proposals with equal priorities\<close>

text \<open>
  Claim C4 says that among live proposals of the same maximal priority the one inserted
  most recently wins. Counterexample: after \<open>propose_index_page("a", 0)\<close> and then
  \<open>propose_index_page("b", 0)\<close> the winner is the route \<open>a\<close>, which was inserted first
  (\<open>url_for\<close> is taken as the identity).
\<close>

theorem tie_counterexample:
  "get_index_url Inr (perform_all [Propose ''a'' 0, Propose ''b'' 0] []) = Inr (Some ''a'')"
  by code_simp

text \<open>
  Claim C4 as amended. After every sequence of calls with a live proposal left, the winner
  is a live proposal of maximal priority, and among the live proposals of that priority it
  is the one whose route is least in the order of strings: the pages are compared as the
  pairs of the negated priority and the route.
\<close>

theorem tie_winner_least_route:
  "live_proposals calls [] \<noteq> [] \<longrightarrow>
      (\<exists>(r, p) \<in> set (live_proposals calls []).
          (\<forall>(r', p') \<in> set (live_proposals calls []). p' < p \<or> (p' = p \<and> r \<le> r'))
          \<and> get_index_url url_for (perform_all calls []) = resolve url_for r)"
proof
  let ?pages = "perform_all calls []" and ?live = "live_proposals calls []"
  assume ne: "?live \<noteq> []"
  have inv: "is_heap ?pages" "mset ?pages = stored ?live" using reachable_inv [of calls] by auto
  have pne: "?pages \<noteq> []" using ne inv(2) stored_empty [of ?live] by auto
  from winner_least [OF inv ne] obtain r p where
    rp: "(r, p) \<in> set ?live" "hd ?pages = new_page r p"
        "\<forall>(r', p') \<in> set ?live. p' < p \<or> (p' = p \<and> r \<le> r')" by blast
  have "get_index_url url_for ?pages = resolve url_for r"
    using get_index_url_hd [OF pne, of url_for] rp(2) by (simp add: new_page_def)
  then show "\<exists>(r, p) \<in> set ?live.
          (\<forall>(r', p') \<in> set ?live. p' < p \<or> (p' = p \<and> r \<le> r'))
          \<and> get_index_url url_for ?pages = resolve url_for r"
    using rp(1,3) by blast
qed

theorem tie_winner_least_route_witness:
  "live_proposals [Propose ''b'' 0, Propose ''c'' 0, Propose ''a'' 0, Propose ''z'' (- 1)] []
     = [(''b'', 0), (''c'', 0), (''a'', 0), (''z'', - 1)]
   \<and> get_index_url Inr
       (perform_all [Propose ''b'' 0, Propose ''c'' 0, Propose ''a'' 0, Propose ''z'' (- 1)] [])
     = Inr (Some ''a'')"
proof -
  let ?cs = "[Propose ''b'' 0, Propose ''c'' 0, Propose ''a'' 0, Propose ''z'' (- 1)]"
  have l: "live_proposals ?cs [] = [(''b'', 0), (''c'', 0), (''a'', 0), (''z'', - 1)]" by simp
  show ?thesis
    using tie_winner_least_route [of ?cs Inr] unfolding l by (auto simp: resolve_def)
qed

subsection \<open>C9: calling a disposer twice\<close>

text \<open>
  Claim C9. Let \<open>propose_index_page(r, p)\<close> return the disposer \<open>d\<close> at a moment when no
  page of the list equals the new one. The first call of \<open>d\<close> removes the page, and a
  second call raises \<open>ValueError\<close>: \<open>list.index\<close> raises for a missing value, so the
  test \<open>index >= 0\<close> is not reached. In any state without a page equal to its own the
  disposer raises \<open>ValueError\<close>.
\<close>

theorem second_dispose_raises:
  "new_page r p \<notin> set pages \<Longrightarrow> propose_index_page r p pages = (d, pages1) \<Longrightarrow>
     (\<exists>pages2. d pages1 = Inr pages2 \<and> mset pages2 = mset pages \<and> d pages2 = Inl ValueError)
     \<and> (\<forall>s. new_page r p \<notin> set s \<longrightarrow> d s = Inl ValueError)"
proof -
  assume a: "new_page r p \<notin> set pages" and b: "propose_index_page r p pages = (d, pages1)"
  have d: "d = disposer (new_page r p)" and p1: "pages1 = heappush pages (new_page r p)"
    using b by (simp_all add: propose_index_page_eq)
  have "new_page r p \<in> set pages1"
    using mset_heappush [of pages "new_page r p"] p1 by (metis set_mset_mset union_single_eq_member)
  from disposer_present [OF this] obtain pages2 where
    q: "disposer (new_page r p) pages1 = Inr pages2"
       "mset pages2 = mset pages1 - {#new_page r p#}" by blast
  have m: "mset pages2 = mset pages" using q(2) p1 by (simp add: mset_heappush)
  then have "new_page r p \<notin> set pages2" using a by (metis set_mset_mset)
  then have "disposer (new_page r p) pages2 = Inl ValueError" by (rule disposer_absent)
  moreover have "\<forall>s. new_page r p \<notin> set s \<longrightarrow> d s = Inl ValueError"
    using d disposer_absent by blast
  ultimately show ?thesis using q(1) m d by blast
qed

theorem second_dispose_raises_witness:
  "new_page ''debug.index'' 5 \<notin> set [new_page ''docs.index'' 1]
   \<and> (\<exists>pages2. disposer (new_page ''debug.index'' 5)
                   (heappush [new_page ''docs.index'' 1] (new_page ''debug.index'' 5)) = Inr pages2
         \<and> mset pages2 = mset [new_page ''docs.index'' 1]
         \<and> disposer (new_page ''debug.index'' 5) pages2 = Inl ValueError)"
proof -
  have a: "new_page ''debug.index'' 5 \<notin> set [new_page ''docs.index'' 1]"
    by (simp add: new_page_def)
  show ?thesis
    using second_dispose_raises [OF a propose_index_page_eq] a by simp
qed

section \<open>The default index route\<close>



section \<open>Loading and running\<close>

text \<open>
  Claim C8 says that without the key \<open>host\<close> the address of \<open>load\<close> has the host
  \<open>127.0.0.1\<close>, which is the default that the schema of the module declares. Evaluated at
  the empty configuration, \<open>load\<close> exports the host \<open>localhost\<close>.
\<close>

theorem load_default_host_is_localhost:
  "\<exists>g. load 5000 Map.empty initial_globals = Inr g
       \<and> exports_address g = Some (Str ''localhost'', Num 5000)
       \<and> Str ''localhost'' \<noteq> Str schema_host_default"
  by (simp add: load_def create_app_def initial_globals_def schema_host_default_def)

text \<open>
  Claim C10. When the exported address is \<open>None\<close>, as it is before \<open>load\<close> and after
  \<open>unload\<close>, \<open>run\<close> logs one warning and returns: no call of \<open>serve\<close>, no sleep, no
  exception, whatever the environment would do.
\<close>

theorem run_without_address:
  "(exports_address g = None \<longrightarrow>
      run debug configuration format_socket_address g now script
        = (Returned, [Log_warn ''HTTP server address is not specified in configuration'']))
   \<and> run debug configuration format_socket_address initial_globals now script
        = (Returned, [Log_warn ''HTTP server address is not specified in configuration''])
   \<and> run debug configuration format_socket_address (unload g) now script
        = (Returned, [Log_warn ''HTTP server address is not specified in configuration''])"
  by (simp add: run_def initial_globals_def unload_def)

theorem run_without_address_witness:
  "exports_address (unload initial_globals) = None
   \<and> run False Map.empty (\<lambda>a. ''localhost:5000'') (unload initial_globals) 0
        [(1, Serve_raises (Exception ''crash''))]
       = (Returned, [Log_warn ''HTTP server address is not specified in configuration''])"
proof -
  have a: "exports_address (unload initial_globals) = None" by (simp add: unload_def)
  show ?thesis
    using run_without_address [of "unload initial_globals" False Map.empty
        "\<lambda>a. ''localhost:5000''" 0 "[(1, Serve_raises (Exception ''crash''))]"] a
    by simp
qed

lemma serve_loop_failure:
  assumes "is_Exception e"
  shows "serve_loop msg app config retries now ((d, Serve_raises e) # rest) =
     (if (if 5 \<le> d then 0 else retries) < 3
      then (fst (serve_loop msg app config ((if 5 \<le> d then 0 else retries) + 1) (now + d + 1) rest),
            [Log_info msg, Serve app config,
             Log_error ''Server stopped unexpectedly, retrying...'', Sleep 1]
            @ snd (serve_loop msg app config ((if 5 \<le> d then 0 else retries) + 1) (now + d + 1) rest))
      else (Raised e, [Log_info msg, Serve app config]))"
  using assms by (simp add: Let_def max_retries_def split: prod.splits)

lemma gaps_failure_times:
  "gaps (failure_times now ((d0, o0) # rest)) = map (\<lambda>(d, outcome). d + 1) rest"
proof (induction rest arbitrary: now d0 o0)
  case Nil
  then show ?case by simp
next
  case (Cons a rest)
  obtain d1 o1 where a: "a = (d1, o1)" by (cases a)
  show ?case using Cons.IH [of "now + d0 + 1" d1 o1] by (simp add: a)
qed

lemma serve_loop_long_runs:
  "all_fail script \<Longrightarrow> \<forall>(d, outcome) \<in> set script. 5 \<le> d \<Longrightarrow>
     fst (serve_loop msg app config retries now script) = Awaiting_serve"
proof (induction script arbitrary: retries now)
  case Nil
  then show ?case by simp
next
  case (Cons a script)
  obtain d outcome where a: "a = (d, outcome)" by (cases a)
  from Cons.prems(1) have "fails outcome" by (simp add: all_fail_def a)
  then obtain e where e: "outcome = Serve_raises e" "is_Exception e"
    by (cases outcome) auto
  have d: "5 \<le> d" using Cons.prems(2) a by simp
  have rest: "all_fail script" "\<forall>(d, outcome) \<in> set script. 5 \<le> d"
    using Cons.prems by (auto simp: all_fail_def)
  show ?case
    using Cons.IH [OF rest, of 1 "now + d + 1"] d
    by (simp add: a e serve_loop_failure [OF e(2)] del: serve_loop.simps(2))
qed

lemma serve_loop_first:
  assumes "all_fail ((d0, o0) # rest)" "\<forall>(d, outcome) \<in> set rest. 5 \<le> d"
  shows "fst (serve_loop msg app config 0 now ((d0, o0) # rest)) = Awaiting_serve"
proof -
  from assms(1) have "fails o0" by (simp add: all_fail_def)
  then obtain e where e: "o0 = Serve_raises e" "is_Exception e"
    by (cases o0) auto
  have rest: "all_fail rest" using assms(1) by (auto simp: all_fail_def)
  show ?thesis
    using serve_loop_long_runs [OF rest assms(2), of msg app config 1 "now + d0 + 1"]
    by (simp add: e serve_loop_failure [OF e(2)] del: serve_loop.simps(2))
qed

text \<open>
  Claim C3 ends with: when every gap between failures is at least 5, the service never
  becomes fatal. Counterexample: four calls of \<open>serve\<close> that each fail after 4 time units.
  The failures are 5 apart, since the back-off of one unit lies between a failure and the
  next start, yet each run lasted less than 5, the counter is never reset, and the fourth
  failure is raised to the caller.
\<close>

theorem retry_policy_counterexample:
  "gaps (failure_times 0 crash_script) = [5, 5, 5]
   \<and> fst (serve_loop ''Starting HTTP server'' None plain_config 0 0 crash_script)
       = Raised (Exception ''crash'')"
  by (simp add: crash_script_def max_retries_def)

text \<open>
  Claim C3 as amended. On a failure of \<open>serve\<close> that \<open>except Exception\<close> catches, the
  counter is reset to 0 when the run lasted at least 5 time units (the elapsed time is
  \<open>now + d - now\<close>, the start time being read anew in every iteration); then, if the
  counter is below 3, the loop logs the error, sleeps 1 time unit, increments the counter
  and starts again at the clock \<open>now + d + 1\<close>; otherwise the exception is raised to the
  caller. With gaps 2, 2, 2 between four failures the fourth failure is raised and the
  first three are not. When every call fails and every gap between failures is at least 6,
  which is a run of at least 5 after the back-off of 1, no failure is ever raised: the
  coroutine is awaiting \<open>serve\<close> again when the script ends.
\<close>

theorem retry_policy:
  "(is_Exception e \<longrightarrow>
      serve_loop msg app config retries now ((d, Serve_raises e) # rest) =
        (if (if 5 \<le> d then 0 else retries) < 3
         then (fst (serve_loop msg app config ((if 5 \<le> d then 0 else retries) + 1) (now + d + 1) rest),
               [Log_info msg, Serve app config,
                Log_error ''Server stopped unexpectedly, retrying...'', Sleep 1]
               @ snd (serve_loop msg app config ((if 5 \<le> d then 0 else retries) + 1)
                        (now + d + 1) rest))
         else (Raised e, [Log_info msg, Serve app config])))
   \<and> (is_Exception e0 \<and> is_Exception e1 \<and> is_Exception e2 \<and> is_Exception e3
        \<and> gaps (failure_times now [(d0, Serve_raises e0), (d1, Serve_raises e1),
                                    (d2, Serve_raises e2), (d3, Serve_raises e3)]) = [2, 2, 2]
        \<longrightarrow> fst (serve_loop msg app config 0 now
                   ([(d0, Serve_raises e0), (d1, Serve_raises e1), (d2, Serve_raises e2),
                     (d3, Serve_raises e3)] @ rest)) = Raised e3
            \<and> fst (serve_loop msg app config 0 now
                   [(d0, Serve_raises e0), (d1, Serve_raises e1), (d2, Serve_raises e2)])
                = Awaiting_serve)
   \<and> (all_fail script \<and> (\<forall>g \<in> set (gaps (failure_times now script)). 6 \<le> g)
        \<longrightarrow> fst (serve_loop msg app config 0 now script) = Awaiting_serve)"
proof -
  have a: "is_Exception e \<longrightarrow>
      serve_loop msg app config retries now ((d, Serve_raises e) # rest) =
        (if (if 5 \<le> d then 0 else retries) < 3
         then (fst (serve_loop msg app config ((if 5 \<le> d then 0 else retries) + 1) (now + d + 1) rest),
               [Log_info msg, Serve app config,
                Log_error ''Server stopped unexpectedly, retrying...'', Sleep 1]
               @ snd (serve_loop msg app config ((if 5 \<le> d then 0 else retries) + 1)
                        (now + d + 1) rest))
         else (Raised e, [Log_info msg, Serve app config]))"
    using serve_loop_failure by blast
  have b: "is_Exception e0 \<and> is_Exception e1 \<and> is_Exception e2 \<and> is_Exception e3
        \<and> gaps (failure_times now [(d0, Serve_raises e0), (d1, Serve_raises e1),
                                    (d2, Serve_raises e2), (d3, Serve_raises e3)]) = [2, 2, 2]
        \<longrightarrow> fst (serve_loop msg app config 0 now
                   ([(d0, Serve_raises e0), (d1, Serve_raises e1), (d2, Serve_raises e2),
                     (d3, Serve_raises e3)] @ rest)) = Raised e3
            \<and> fst (serve_loop msg app config 0 now
                   [(d0, Serve_raises e0), (d1, Serve_raises e1), (d2, Serve_raises e2)])
                = Awaiting_serve"
  proof
    assume h: "is_Exception e0 \<and> is_Exception e1 \<and> is_Exception e2 \<and> is_Exception e3
        \<and> gaps (failure_times now [(d0, Serve_raises e0), (d1, Serve_raises e1),
                                    (d2, Serve_raises e2), (d3, Serve_raises e3)]) = [2, 2, 2]"
    then have d: "d1 = 1" "d2 = 1" "d3 = 1" by (simp_all add: gaps_failure_times)
    show "fst (serve_loop msg app config 0 now
                   ([(d0, Serve_raises e0), (d1, Serve_raises e1), (d2, Serve_raises e2),
                     (d3, Serve_raises e3)] @ rest)) = Raised e3
            \<and> fst (serve_loop msg app config 0 now
                   [(d0, Serve_raises e0), (d1, Serve_raises e1), (d2, Serve_raises e2)])
                = Awaiting_serve"
      using h d by (simp add: serve_loop_failure del: serve_loop.simps(2))
  qed
  have c: "all_fail script \<and> (\<forall>g \<in> set (gaps (failure_times now script)). 6 \<le> g)
        \<longrightarrow> fst (serve_loop msg app config 0 now script) = Awaiting_serve"
  proof
    assume h: "all_fail script \<and> (\<forall>g \<in> set (gaps (failure_times now script)). 6 \<le> g)"
    show "fst (serve_loop msg app config 0 now script) = Awaiting_serve"
    proof (cases script)
      case Nil
      then show ?thesis by simp
    next
      case (Cons a rest)
      obtain d0 o0 where a: "a = (d0, o0)" by (cases a)
      have "gaps (failure_times now script) = map (\<lambda>(d, outcome). d + 1) rest"
        unfolding Cons a by (rule gaps_failure_times)
      then have "\<forall>g \<in> set (map (\<lambda>(d, outcome). d + 1) rest). 6 \<le> g" using h by simp
      then have "\<forall>(d, outcome) \<in> set rest. 5 \<le> d" by fastforce
      then show ?thesis using serve_loop_first [of d0 o0 rest] h by (simp add: Cons a)
    qed
  qed
  from a b c show ?thesis by blast
qed

theorem retry_policy_witness:
  "is_Exception (Exception ''crash'')
   \<and> gaps (failure_times 0 [(7, Serve_raises (Exception ''crash'')), (1, Serve_raises (Exception ''crash'')),
                              (1, Serve_raises (Exception ''crash'')), (1, Serve_raises (Exception ''crash''))])
       = [2, 2, 2]
   \<and> fst (serve_loop ''Starting HTTP server'' None plain_config 0 0
            [(7, Serve_raises (Exception ''crash'')), (1, Serve_raises (Exception ''crash'')),
             (1, Serve_raises (Exception ''crash'')), (1, Serve_raises (Exception ''crash''))])
       = Raised (Exception ''crash'')
   \<and> all_fail [(5, Serve_raises (Exception ''crash'')), (5, Serve_raises (Exception ''crash'')),
               (5, Serve_raises (Exception ''crash'')), (5, Serve_raises (Exception ''crash'')),
               (5, Serve_raises (Exception ''crash''))]
   \<and> gaps (failure_times 0 [(5, Serve_raises (Exception ''crash'')), (5, Serve_raises (Exception ''crash'')),
               (5, Serve_raises (Exception ''crash'')), (5, Serve_raises (Exception ''crash'')),
               (5, Serve_raises (Exception ''crash''))]) = [6, 6, 6, 6]
   \<and> fst (serve_loop ''Starting HTTP server'' None plain_config 0 0
            [(5, Serve_raises (Exception ''crash'')), (5, Serve_raises (Exception ''crash'')),
               (5, Serve_raises (Exception ''crash'')), (5, Serve_raises (Exception ''crash'')),
               (5, Serve_raises (Exception ''crash''))]) = Awaiting_serve"
proof -
  let ?x = "Serve_raises (Exception ''crash'')"
  have e: "is_Exception (Exception ''crash'')" by simp
  have g1: "gaps (failure_times 0 [(7, ?x), (1, ?x), (1, ?x), (1, ?x)]) = [2, 2, 2]" by simp
  have af: "all_fail [(5, ?x), (5, ?x), (5, ?x), (5, ?x), (5, ?x)]" by (simp add: all_fail_def)
  have g2: "gaps (failure_times 0 [(5, ?x), (5, ?x), (5, ?x), (5, ?x), (5, ?x)]) = [6, 6, 6, 6]"
    by simp
  have "fst (serve_loop ''Starting HTTP server'' None plain_config 0 0
               ([(7, ?x), (1, ?x), (1, ?x), (1, ?x)] @ [])) = Raised (Exception ''crash'')"
    using retry_policy [where ?e0.0 = "Exception ''crash''" and ?e1.0 = "Exception ''crash''"
        and ?e2.0 = "Exception ''crash''" and ?e3.0 = "Exception ''crash''" and now = 0
        and ?d0.0 = 7 and ?d1.0 = 1 and ?d2.0 = 1 and ?d3.0 = 1 and rest = "[]"
        and msg = "''Starting HTTP server''" and app = None and config = plain_config] e g1
    by simp
  moreover have "fst (serve_loop ''Starting HTTP server'' None plain_config 0 0
               [(5, ?x), (5, ?x), (5, ?x), (5, ?x), (5, ?x)]) = Awaiting_serve"
    using retry_policy [where script = "[(5, ?x), (5, ?x), (5, ?x), (5, ?x), (5, ?x)]" and now = 0
        and msg = "''Starting HTTP server''" and app = None and config = plain_config] af g2
    by simp
  ultimately show ?thesis using e g1 af g2 by simp
qed

section \<open>Routing and mounting\<close>

lemma better_trans: "better a b \<Longrightarrow> better b c \<Longrightarrow> better a c"
  by (auto simp: better_def)

lemma better_neg_trans: "better e c \<Longrightarrow> \<not> better x c \<Longrightarrow> better e x"
  by (auto simp: better_def)

lemma better_irrefl: "\<not> better e e"
  by (simp add: better_def)

lemma pick_Some:
  "pick (Some c) es = Some e \<Longrightarrow>
     (e = c \<and> (\<forall>x \<in> set es. \<not> better x c))
     \<or> (\<exists>xs ys. es = xs @ e # ys \<and> better e c \<and> (\<forall>x \<in> set xs. better e x)
            \<and> (\<forall>y \<in> set ys. \<not> better y e))"
proof (induction es arbitrary: c)
  case Nil
  then show ?case by simp
next
  case (Cons x es)
  show ?case
  proof (cases "better x c")
    case True
    then have "pick (Some x) es = Some e" using Cons.prems by simp
    from Cons.IH [OF this] show ?thesis
    proof
      assume a: "e = x \<and> (\<forall>y \<in> set es. \<not> better y x)"
      then have "x # es = [] @ e # es \<and> better e c \<and> (\<forall>y \<in> set es. \<not> better y e)"
        using True by simp
      then show ?thesis by (metis empty_iff list.set(1))
    next
      assume "\<exists>xs ys. es = xs @ e # ys \<and> better e x \<and> (\<forall>z \<in> set xs. better e z)
            \<and> (\<forall>y \<in> set ys. \<not> better y e)"
      then obtain xs ys where b: "es = xs @ e # ys" "better e x" "\<forall>z \<in> set xs. better e z"
        "\<forall>y \<in> set ys. \<not> better y e" by blast
      have "x # es = (x # xs) @ e # ys" using b(1) by simp
      moreover have "better e c" using b(2) True by (rule better_trans)
      moreover have "\<forall>z \<in> set (x # xs). better e z" using b(2,3) by simp
      ultimately show ?thesis using b(4) by blast
    qed
  next
    case False
    then have "pick (Some c) es = Some e" using Cons.prems by simp
    from Cons.IH [OF this] show ?thesis
    proof
      assume "e = c \<and> (\<forall>y \<in> set es. \<not> better y c)"
      then show ?thesis using False by simp
    next
      assume "\<exists>xs ys. es = xs @ e # ys \<and> better e c \<and> (\<forall>z \<in> set xs. better e z)
            \<and> (\<forall>y \<in> set ys. \<not> better y e)"
      then obtain xs ys where b: "es = xs @ e # ys" "better e c" "\<forall>z \<in> set xs. better e z"
        "\<forall>y \<in> set ys. \<not> better y e" by blast
      have "x # es = (x # xs) @ e # ys" using b(1) by simp
      moreover have "better e x" using b(2) False by (rule better_neg_trans)
      then have "\<forall>z \<in> set (x # xs). better e z" using b(3) by simp
      ultimately show ?thesis using b(2,4) by blast
    qed
  qed
qed

lemma pick_None_iff: "pick None es = None \<longleftrightarrow> es = []"
proof (cases es)
  case Nil
  then show ?thesis by simp
next
  case (Cons x xs)
  have "pick (Some c) ys \<noteq> None" for c ys
    by (induction ys arbitrary: c) auto
  then show ?thesis using Cons by simp
qed

lemma pick_None_Some:
  assumes "pick None es = Some e"
  shows "\<exists>xs ys. es = xs @ e # ys \<and> (\<forall>x \<in> set xs. better e x) \<and> (\<forall>y \<in> set ys. \<not> better y e)"
proof (cases es)
  case Nil
  then show ?thesis using assms by simp
next
  case (Cons c es')
  then have "pick (Some c) es' = Some e" using assms by simp
  from pick_Some [OF this] show ?thesis
  proof
    assume "e = c \<and> (\<forall>x \<in> set es'. \<not> better x c)"
    then have "es = [] @ e # es' \<and> (\<forall>y \<in> set es'. \<not> better y e)" using Cons by simp
    then show ?thesis by (metis empty_iff list.set(1))
  next
    assume "\<exists>xs ys. es' = xs @ e # ys \<and> better e c \<and> (\<forall>x \<in> set xs. better e x)
            \<and> (\<forall>y \<in> set ys. \<not> better y e)"
    then obtain xs ys where b: "es' = xs @ e # ys" "better e c" "\<forall>z \<in> set xs. better e z"
        "\<forall>y \<in> set ys. \<not> better y e" by blast
    have "es = (c # xs) @ e # ys" using b(1) Cons by simp
    moreover have "\<forall>z \<in> set (c # xs). better e z" using b(2,3) by simp
    ultimately show ?thesis using b(4) by blast
  qed
qed

lemma filter_split:
  "filter P l = xs @ e # ys \<Longrightarrow>
     \<exists>xs0 ys0. l = xs0 @ e # ys0 \<and> filter P xs0 = xs \<and> filter P ys0 = ys \<and> P e"
proof (induction xs arbitrary: l)
  case Nil
  then have "filter P l = e # ys" by simp
  then obtain us vs where "l = us @ e # vs" "\<forall>u \<in> set us. \<not> P u" "P e" "ys = filter P vs"
    unfolding filter_eq_Cons_iff by blast
  then have "l = us @ e # vs \<and> filter P us = [] \<and> filter P vs = ys \<and> P e" by simp
  then show ?case by blast
next
  case (Cons x xs)
  then have "filter P l = x # (xs @ e # ys)" by simp
  then obtain us vs where a: "l = us @ x # vs" "\<forall>u \<in> set us. \<not> P u" "P x"
      "xs @ e # ys = filter P vs"
    unfolding filter_eq_Cons_iff by blast
  from Cons.IH [OF a(4) [symmetric]] obtain xs0 ys0 where
    b: "vs = xs0 @ e # ys0" "filter P xs0 = xs" "filter P ys0 = ys" "P e" by blast
  have "l = (us @ x # xs0) @ e # ys0 \<and> filter P (us @ x # xs0) = x # xs"
    using a b by simp
  then show ?case using b by blast
qed

lemma route_connection_Some:
  assumes "route_connection t scopeKind path = Some e"
  shows "\<exists>xs ys. entries t = xs @ e # ys \<and> matches scopeKind path e
           \<and> (\<forall>c \<in> set xs. matches scopeKind path c \<longrightarrow> better e c)
           \<and> (\<forall>c \<in> set ys. matches scopeKind path c \<longrightarrow> \<not> better c e)"
proof -
  let ?P = "matches scopeKind path"
  from assms have "pick None (filter ?P (entries t)) = Some e"
    by (simp add: route_connection_def)
  from pick_None_Some [OF this] obtain xs ys where
    a: "filter ?P (entries t) = xs @ e # ys" "\<forall>x \<in> set xs. better e x"
       "\<forall>y \<in> set ys. \<not> better y e" by blast
  from filter_split [OF a(1)] obtain xs0 ys0 where
    b: "entries t = xs0 @ e # ys0" "filter ?P xs0 = xs" "filter ?P ys0 = ys" "?P e" by blast
  have "\<forall>c \<in> set xs0. ?P c \<longrightarrow> better e c" using a(2) b(2) by auto
  moreover have "\<forall>c \<in> set ys0. ?P c \<longrightarrow> \<not> better c e" using a(3) b(3) by auto
  ultimately show ?thesis using b(1,4) by blast
qed

lemma route_connection_None:
  "route_connection t scopeKind path = None \<longleftrightarrow>
     (\<forall>e \<in> set (entries t). \<not> matches scopeKind path e)"
  by (simp add: route_connection_def pick_None_iff filter_empty_conv)

lemma table_add_fresh:
  "table_add app scopes path pr empty_table =
     Inr (0, \<lparr>entries = [\<lparr>entry_id = 0, application = app, pathPrefix = path,
                            acceptedScopes = (case scopes of None \<Rightarrow> [] | Some s \<Rightarrow> s),
                            entry_priority = pr\<rparr>], next_id = 1\<rparr>)"
  by (simp add: table_add_def empty_table_def)

text \<open>
  Claim C7. No entry is selected exactly when no entry matches. The entry that is
  selected accepts the scope kind and its path prefix is a prefix of the path; every
  matching entry registered before it has a shorter prefix, or a prefix of the same length
  and a lower priority; every matching entry registered after it has a shorter prefix, or a
  prefix of the same length and a priority that is not higher. With mounts at \<open>/a\<close> and
  \<open>/a/b\<close>, both of priority 0 and registered in either order, a request to \<open>/a/b/c\<close> is
  routed to the application mounted at \<open>/a/b\<close>.
\<close>

theorem route_longest_prefix:
  "(route_connection t scopeKind path = None
      \<longleftrightarrow> (\<forall>e \<in> set (entries t). \<not> matches scopeKind path e))
   \<and> (route_connection t scopeKind path = Some e \<longrightarrow>
        (\<exists>xs ys. entries t = xs @ e # ys
           \<and> accepts e scopeKind \<and> prefix (pathPrefix e) path
           \<and> (\<forall>c \<in> set xs. matches scopeKind path c \<longrightarrow>
                 length (pathPrefix c) < length (pathPrefix e)
                 \<or> (length (pathPrefix c) = length (pathPrefix e)
                      \<and> entry_priority c < entry_priority e))
           \<and> (\<forall>c \<in> set ys. matches scopeKind path c \<longrightarrow>
                 length (pathPrefix c) < length (pathPrefix e)
                 \<or> (length (pathPrefix c) = length (pathPrefix e)
                      \<and> entry_priority c \<le> entry_priority e))))
   \<and> (table_add (AsgiApp a) None ''/a'' 0 empty_table = Inr (i, t1)
        \<and> table_add (AsgiApp b) None ''/a/b'' 0 t1 = Inr (j, t2)
      \<longrightarrow> map_option application (route_connection t2 scopeKind ''/a/b/c'') = Some (AsgiApp b))
   \<and> (table_add (AsgiApp b) None ''/a/b'' 0 empty_table = Inr (i, t1)
        \<and> table_add (AsgiApp a) None ''/a'' 0 t1 = Inr (j, t2)
      \<longrightarrow> map_option application (route_connection t2 scopeKind ''/a/b/c'') = Some (AsgiApp b))"
proof -
  have p2: "route_connection t scopeKind path = Some e \<longrightarrow>
        (\<exists>xs ys. entries t = xs @ e # ys
           \<and> accepts e scopeKind \<and> prefix (pathPrefix e) path
           \<and> (\<forall>c \<in> set xs. matches scopeKind path c \<longrightarrow>
                 length (pathPrefix c) < length (pathPrefix e)
                 \<or> (length (pathPrefix c) = length (pathPrefix e)
                      \<and> entry_priority c < entry_priority e))
           \<and> (\<forall>c \<in> set ys. matches scopeKind path c \<longrightarrow>
                 length (pathPrefix c) < length (pathPrefix e)
                 \<or> (length (pathPrefix c) = length (pathPrefix e)
                      \<and> entry_priority c \<le> entry_priority e)))"
  proof
    assume "route_connection t scopeKind path = Some e"
    from route_connection_Some [OF this] obtain xs ys where
      a: "entries t = xs @ e # ys" "matches scopeKind path e"
         "\<forall>c \<in> set xs. matches scopeKind path c \<longrightarrow> better e c"
         "\<forall>c \<in> set ys. matches scopeKind path c \<longrightarrow> \<not> better c e" by blast
    have "\<forall>c \<in> set xs. matches scopeKind path c \<longrightarrow>
                 length (pathPrefix c) < length (pathPrefix e)
                 \<or> (length (pathPrefix c) = length (pathPrefix e)
                      \<and> entry_priority c < entry_priority e)"
      using a(3) by (simp add: better_def)
    moreover have "\<forall>c \<in> set ys. matches scopeKind path c \<longrightarrow>
                 length (pathPrefix c) < length (pathPrefix e)
                 \<or> (length (pathPrefix c) = length (pathPrefix e)
                      \<and> entry_priority c \<le> entry_priority e)"
      using a(4) by (auto simp: better_def)
    ultimately show "\<exists>xs ys. entries t = xs @ e # ys
           \<and> accepts e scopeKind \<and> prefix (pathPrefix e) path
           \<and> (\<forall>c \<in> set xs. matches scopeKind path c \<longrightarrow>
                 length (pathPrefix c) < length (pathPrefix e)
                 \<or> (length (pathPrefix c) = length (pathPrefix e)
                      \<and> entry_priority c < entry_priority e))
           \<and> (\<forall>c \<in> set ys. matches scopeKind path c \<longrightarrow>
                 length (pathPrefix c) < length (pathPrefix e)
                 \<or> (length (pathPrefix c) = length (pathPrefix e)
                      \<and> entry_priority c \<le> entry_priority e))"
      using a(1,2) unfolding matches_def by blast
  qed
  have p3: "table_add (AsgiApp a) None ''/a'' 0 empty_table = Inr (i, t1)
        \<and> table_add (AsgiApp b) None ''/a/b'' 0 t1 = Inr (j, t2)
      \<longrightarrow> map_option application (route_connection t2 scopeKind ''/a/b/c'') = Some (AsgiApp b)"
    by (auto simp: table_add_def empty_table_def same_mount_def route_connection_def
          matches_def accepts_def better_def)
  have p4: "table_add (AsgiApp b) None ''/a/b'' 0 empty_table = Inr (i, t1)
        \<and> table_add (AsgiApp a) None ''/a'' 0 t1 = Inr (j, t2)
      \<longrightarrow> map_option application (route_connection t2 scopeKind ''/a/b/c'') = Some (AsgiApp b)"
    by (auto simp: table_add_def empty_table_def same_mount_def route_connection_def
          matches_def accepts_def better_def)
  from route_connection_None [of t scopeKind path] p2 p3 p4 show ?thesis by blast
qed

theorem route_longest_prefix_witness:
  "table_add (AsgiApp ''A'') None ''/a'' 0 empty_table = Inr (0, table_a)
   \<and> table_add (AsgiApp ''B'') None ''/a/b'' 0 table_a = Inr (1, table_ab)
   \<and> map_option application (route_connection table_ab ''http'' ''/a/b/c'') = Some (AsgiApp ''B'')
   \<and> route_connection table_ab ''http'' ''/other'' = None
   \<and> route_connection table_ab ''http'' ''/a/x''
       = Some \<lparr>entry_id = 0, application = AsgiApp ''A'', pathPrefix = ''/a'',
               acceptedScopes = [], entry_priority = 0\<rparr>"
proof -
  have a: "table_add (AsgiApp ''A'') None ''/a'' 0 empty_table = Inr (0, table_a)"
    by (simp add: table_add_def empty_table_def table_a_def)
  have b: "table_add (AsgiApp ''B'') None ''/a/b'' 0 table_a = Inr (1, table_ab)"
    by (simp add: table_add_def table_a_def table_ab_def same_mount_def)
  have c: "\<forall>e \<in> set (entries table_ab). \<not> matches ''http'' ''/other'' e"
    by (simp add: table_ab_def matches_def)
  have d: "route_connection table_ab ''http'' ''/a/x''
       = Some \<lparr>entry_id = 0, application = AsgiApp ''A'', pathPrefix = ''/a'',
               acceptedScopes = [], entry_priority = 0\<rparr>"
    by (simp add: route_connection_def table_ab_def matches_def accepts_def)
  show ?thesis
    using route_longest_prefix [of table_ab "''http''" "''/other''" _ "''A''" 0 table_a "''B''" 1 table_ab]
      a b c d
    by simp
qed

lemma load_initial: "load 5000 Map.empty initial_globals = Inr loaded_globals"
  by (simp add: load_def create_app_def initial_globals_def loaded_globals_def empty_table_def)






end
